theory Spec2Isabelle
  imports Main
begin

section \<open>Strings and exceptions\<close>

text \<open>
  A Python \<open>str\<close> is a sequence of code points. It is modelled as a \<open>string\<close> whose
  characters stand for the code points U+0000 to U+00FF, one character per code point, so
  that \<open>length\<close> is Python's \<open>len\<close>. Strings with code points above U+00FF are outside
  the model.

  Every exception of \<open>classes.py\<close> is a \<open>ValueError\<close>; the raise sites differ in their
  message only. The model has one constructor per message:
  \<^item> \<open>NameCannotBeEmpty\<close>: "Name cannot be empty";
  \<^item> \<open>NameOnlyLetters v\<close>: "Name v should only contain letters";
  \<^item> \<open>IncorrectPhoneFormat v\<close>: "Incorrect phone v number format";
  \<^item> \<open>IncorrectBirthdayFormat v\<close>: "Incorrect v format. Please use YYYY-MM-DD format";
  \<^item> \<open>AtMostTwoPhones\<close>: "A contact can have at most 2 phones";
  \<^item> \<open>NumberDoesNotExist v\<close>: "The Number v Does Not Exist";
  \<^item> \<open>DateOutOfRange\<close>: the \<open>ValueError\<close> of \<open>datetime.replace\<close>.
\<close>

datatype error =
    NameCannotBeEmpty
  | NameOnlyLetters string
  | IncorrectPhoneFormat string
  | IncorrectBirthdayFormat string
  | AtMostTwoPhones
  | NumberDoesNotExist string
  | DateOutOfRange

text \<open>The character class \<open>[A-Za-z]\<close> of the regular expression in \<open>Name\<close>.\<close>

definition ascii_letter :: "char \<Rightarrow> bool" where
  "ascii_letter c \<longleftrightarrow>
     c \<in> set ''ABCDEFGHIJKLMNOPQRSTUVWXYZ'' \<or> c \<in> set ''abcdefghijklmnopqrstuvwxyz''"

text \<open>
  \<open>re.match(r"^[A-Za-z]*$", s)\<close>: the greedy star takes every leading letter; without
  the MULTILINE flag, \<open>$\<close> matches at the end of the string and also just before a
  newline that is the last character of the string.
\<close>

definition re_match_letters :: "string \<Rightarrow> bool" where
  "re_match_letters s =
     (let rest = dropWhile ascii_letter s in rest = [] \<or> rest = [CHR 0x0A])"

text \<open>
  \<open>str.isdigit()\<close>: true when the string is not empty and every character has the
  Unicode property Numeric_Type Digit or Decimal. Below U+0100 these are the ten
  characters 0 to 9 and the superscripts U+00B2, U+00B3 and U+00B9.
\<close>

definition ascii_digit :: "char \<Rightarrow> bool" where
  "ascii_digit c \<longleftrightarrow> c \<in> set ''0123456789''"

definition digit_char :: "char \<Rightarrow> bool" where
  "digit_char c \<longleftrightarrow> ascii_digit c \<or> c = CHR 0xB2 \<or> c = CHR 0xB3 \<or> c = CHR 0xB9"

definition isdigit :: "string \<Rightarrow> bool" where
  "isdigit s \<longleftrightarrow> s \<noteq> [] \<and> list_all digit_char s"

section \<open>The fields Name and Phone\<close>

datatype Name = MkName (name_value: string)

datatype Phone = MkPhone (phone_value: string)

text \<open>The setter of \<open>Name.value\<close>; \<open>Name(value)\<close> calls it through \<open>Field.__init__\<close>.\<close>

definition Name_set_value :: "string \<Rightarrow> error + Name" where
  "Name_set_value new_value =
     (if new_value = [] then Inl NameCannotBeEmpty
      else if \<not> re_match_letters new_value then Inl (NameOnlyLetters new_value)
      else Inr (MkName new_value))"

definition Name_init :: "string \<Rightarrow> error + Name" where
  "Name_init v = Name_set_value v"

text \<open>The setter of \<open>Phone.value\<close>; \<open>Phone(value)\<close> assigns \<open>self.value\<close>.\<close>

definition Phone_set_value :: "string \<Rightarrow> error + Phone" where
  "Phone_set_value new_value =
     (if length new_value \<noteq> 10 \<or> \<not> isdigit new_value
      then Inl (IncorrectPhoneFormat new_value)
      else Inr (MkPhone new_value))"

definition Phone_init :: "string \<Rightarrow> error + Phone" where
  "Phone_init v = Phone_set_value v"

section \<open>Dates\<close>

text \<open>
  A naive \<open>datetime\<close> of the standard library, with the calendar functions of its
  implementation (\<open>_is_leap\<close>, \<open>_days_in_month\<close>, \<open>_days_before_year\<close>,
  \<open>_days_before_month\<close>, \<open>_ymd2ord\<close>). Python's integers are unbounded, hence \<open>int\<close>.
\<close>

record datetime =
  year :: int
  month :: int
  day :: int
  hour :: int
  minute :: int
  second :: int
  microsecond :: int

definition is_leap :: "int \<Rightarrow> bool" where
  "is_leap y \<longleftrightarrow> y mod 4 = 0 \<and> (y mod 100 \<noteq> 0 \<or> y mod 400 = 0)"

definition days_in_month :: "int \<Rightarrow> int \<Rightarrow> int" where
  "days_in_month y m =
     (if m = 2 \<and> is_leap y then 29
      else [31, 28, 31, 30, 31, 30, 31, 31, 30, 31, 30, 31] ! nat (m - 1))"

definition days_before_year :: "int \<Rightarrow> int" where
  "days_before_year y =
     (y - 1) * 365 + (y - 1) div 4 - (y - 1) div 100 + (y - 1) div 400"

definition days_before_month :: "int \<Rightarrow> int \<Rightarrow> int" where
  "days_before_month y m =
     [0, 31, 59, 90, 120, 151, 181, 212, 243, 273, 304, 334] ! nat (m - 1)
       + (if 2 < m \<and> is_leap y then 1 else 0)"

definition ymd2ord :: "int \<Rightarrow> int \<Rightarrow> int \<Rightarrow> int" where
  "ymd2ord y m d = days_before_year y + days_before_month y m + d"

definition toordinal :: "datetime \<Rightarrow> int" where
  "toordinal t = ymd2ord (year t) (month t) (day t)"

text \<open>The fields of a \<open>datetime\<close> are in range by construction.\<close>

definition valid_datetime :: "datetime \<Rightarrow> bool" where
  "valid_datetime t \<longleftrightarrow>
     1 \<le> year t \<and> year t \<le> 9999 \<and> 1 \<le> month t \<and> month t \<le> 12 \<and>
     1 \<le> day t \<and> day t \<le> days_in_month (year t) (month t) \<and>
     0 \<le> hour t \<and> hour t < 24 \<and> 0 \<le> minute t \<and> minute t < 60 \<and>
     0 \<le> second t \<and> second t < 60 \<and> 0 \<le> microsecond t \<and> microsecond t < 1000000"

text \<open>
  \<open>t.replace(year=y)\<close> builds a new \<open>datetime\<close> and so checks the fields again: it
  raises \<open>ValueError\<close> when \<open>y\<close> is outside 1..9999 or the day does not exist in that
  month of year \<open>y\<close>.
\<close>

definition replace_year :: "datetime \<Rightarrow> int \<Rightarrow> error + datetime" where
  "replace_year t y =
     (if 1 \<le> y \<and> y \<le> 9999 \<and> day t \<le> days_in_month y (month t)
      then Inr (t\<lparr>year := y\<rparr>)
      else Inl DateOutOfRange)"

text \<open>\<open>a > b\<close> compares the fields from the year down to the microsecond.\<close>

fun fields_gt :: "int list \<Rightarrow> int list \<Rightarrow> bool" where
  "fields_gt (x # xs) (y # ys) = (y < x \<or> (x = y \<and> fields_gt xs ys))"
| "fields_gt _ _ = False"

definition datetime_gt :: "datetime \<Rightarrow> datetime \<Rightarrow> bool" where
  "datetime_gt a b =
     fields_gt [year a, month a, day a, hour a, minute a, second a, microsecond a]
               [year b, month b, day b, hour b, minute b, second b, microsecond b]"

text \<open>
  \<open>(a - b).days\<close>: the difference is a \<open>timedelta\<close> built from the difference of the
  ordinals, of the seconds of the day and of the microseconds, and normalised so that
  its seconds and microseconds are not negative; its \<open>days\<close> is the floor.
\<close>

definition seconds_of_day :: "datetime \<Rightarrow> int" where
  "seconds_of_day t = second t + minute t * 60 + hour t * 3600"

definition sub_days :: "datetime \<Rightarrow> datetime \<Rightarrow> int" where
  "sub_days a b =
     ((toordinal a - toordinal b) * 86400000000
        + (seconds_of_day a - seconds_of_day b) * 1000000
        + (microsecond a - microsecond b)) div 86400000000"

text \<open>The time of day: whether it is 00:00:00.000000, and its length in microseconds.\<close>

definition midnight :: "datetime \<Rightarrow> bool" where
  "midnight t \<longleftrightarrow> hour t = 0 \<and> minute t = 0 \<and> second t = 0 \<and> microsecond t = 0"

definition microseconds_of_day :: "datetime \<Rightarrow> int" where
  "microseconds_of_day t = seconds_of_day t * 1000000 + microsecond t"

subsection \<open>Parsing with the format \<open>%Y-%m-%d\<close>\<close>

text \<open>
  \<open>datetime.strptime(s, "%Y-%m-%d")\<close> matches \<open>s\<close> from its start against
  \<open>(\d\d\d\d)-(1[0-2]|0[1-9]|[1-9])-(3[0-1]|[1-2]\d|0[1-9]|[1-9]| [1-9])\<close>, taking the
  alternatives in this order, raises \<open>ValueError\<close> when there is no match or when a
  part of \<open>s\<close> is left over, and then builds the date, which raises \<open>ValueError\<close> for
  year 0 and for a day that the month does not have. Each parser returns the number read
  and the rest of the string, one entry for each alternative that matches, in order.
\<close>

definition digit_value :: "char \<Rightarrow> int" where
  "digit_value c = int (of_char c) - 48"

definition nonzero_digit :: "char \<Rightarrow> bool" where
  "nonzero_digit c \<longleftrightarrow> c \<in> set ''123456789''"

fun parse_Y :: "string \<Rightarrow> (int \<times> string) list" where
  "parse_Y (a # b # c # d # rest) =
     (if ascii_digit a \<and> ascii_digit b \<and> ascii_digit c \<and> ascii_digit d
      then [(1000 * digit_value a + 100 * digit_value b + 10 * digit_value c
               + digit_value d, rest)]
      else [])"
| "parse_Y _ = []"

fun two_chars :: "(char \<Rightarrow> bool) \<Rightarrow> (char \<Rightarrow> bool) \<Rightarrow> string \<Rightarrow> (int \<times> string) list" where
  "two_chars P Q (a # b # rest) =
     (if P a \<and> Q b then [(10 * digit_value a + digit_value b, rest)] else [])"
| "two_chars P Q _ = []"

fun one_char :: "(char \<Rightarrow> bool) \<Rightarrow> string \<Rightarrow> (int \<times> string) list" where
  "one_char P (a # rest) = (if P a then [(digit_value a, rest)] else [])"
| "one_char P _ = []"

fun space_char :: "string \<Rightarrow> (int \<times> string) list" where
  "space_char (a # b # rest) =
     (if a = CHR '' '' \<and> nonzero_digit b then [(digit_value b, rest)] else [])"
| "space_char _ = []"

definition parse_m :: "string \<Rightarrow> (int \<times> string) list" where
  "parse_m s =
     two_chars (\<lambda>c. c = CHR ''1'') (\<lambda>c. c \<in> set ''012'') s
     @ two_chars (\<lambda>c. c = CHR ''0'') nonzero_digit s
     @ one_char nonzero_digit s"

definition parse_d :: "string \<Rightarrow> (int \<times> string) list" where
  "parse_d s =
     two_chars (\<lambda>c. c = CHR ''3'') (\<lambda>c. c \<in> set ''01'') s
     @ two_chars (\<lambda>c. c \<in> set ''12'') ascii_digit s
     @ two_chars (\<lambda>c. c = CHR ''0'') nonzero_digit s
     @ one_char nonzero_digit s
     @ space_char s"

fun dash :: "string \<Rightarrow> string option" where
  "dash (c # rest) = (if c = CHR ''-'' then Some rest else None)"
| "dash [] = None"

text \<open>All matches of the whole pattern, in the order in which backtracking finds them.\<close>

definition matches_ymd :: "string \<Rightarrow> ((int \<times> int \<times> int) \<times> string) list" where
  "matches_ymd s =
     concat (map (\<lambda>(y, r1). case dash r1 of None \<Rightarrow> [] | Some r2 \<Rightarrow>
       concat (map (\<lambda>(m, r3). case dash r3 of None \<Rightarrow> [] | Some r4 \<Rightarrow>
         map (\<lambda>(d, r5). ((y, m, d), r5)) (parse_d r4)) (parse_m r2))) (parse_Y s))"

definition strptime_ymd :: "string \<Rightarrow> datetime option" where
  "strptime_ymd s =
     (case matches_ymd s of
        [] \<Rightarrow> None
      | ((y, m, d), rest) # _ \<Rightarrow>
          if rest \<noteq> [] then None
          else if y < 1 \<or> days_in_month y m < d then None
          else Some \<lparr>year = y, month = m, day = d,
                     hour = 0, minute = 0, second = 0, microsecond = 0\<rparr>)"

section \<open>The field Birthday\<close>

record Birthday =
  date :: datetime
  birthday_value :: string

definition Birthday_set_value :: "string \<Rightarrow> error + Birthday" where
  "Birthday_set_value new_value =
     (case strptime_ymd new_value of
        None \<Rightarrow> Inl (IncorrectBirthdayFormat new_value)
      | Some t \<Rightarrow> Inr \<lparr>date = t, birthday_value = new_value\<rparr>)"

definition Birthday_init :: "string \<Rightarrow> error + Birthday" where
  "Birthday_init v = Birthday_set_value v"

section \<open>Record\<close>

record Record =
  name :: Name
  phones :: "Phone list"
  birthday :: "Birthday option"

text \<open>
  An optional string argument is \<open>None\<close> or a string; \<open>if x:\<close> holds for a string that
  is not empty.
\<close>

fun truthy :: "string option \<Rightarrow> bool" where
  "truthy None = False"
| "truthy (Some s) = (s \<noteq> [])"

definition Record_init :: "string \<Rightarrow> string option \<Rightarrow> error + Record" where
  "Record_init nm bd =
     (case Name_init nm of
        Inl e \<Rightarrow> Inl e
      | Inr n \<Rightarrow>
          if truthy bd then
            (case Birthday_init (the bd) of
               Inl e \<Rightarrow> Inl e
             | Inr b \<Rightarrow> Inr \<lparr>name = n, phones = [], birthday = Some b\<rparr>)
          else Inr \<lparr>name = n, phones = [], birthday = None\<rparr>)"

text \<open>
  A method that changes the record returns the exception it raised, if any, together
  with the record as the call left it.
\<close>

definition add_phone :: "Record \<Rightarrow> string \<Rightarrow> error option \<times> Record" where
  "add_phone r phone =
     (if length (phones r) < 2 then
        (case Phone_init phone of
           Inl e \<Rightarrow> (Some e, r)
         | Inr phone_item \<Rightarrow> (None, r\<lparr>phones := phones r @ [phone_item]\<rparr>))
      else (Some AtMostTwoPhones, r))"

definition remove_phone :: "Record \<Rightarrow> string \<Rightarrow> Record" where
  "remove_phone r phone = r\<lparr>phones := filter (\<lambda>p. phone_value p \<noteq> phone) (phones r)\<rparr>"

text \<open>
  The loop of \<open>edit_phone\<close> over the phones: it assigns through the validating setter and
  carries the flag \<open>found\<close>. An exception from the setter would leave the loop with the
  phones changed so far.
\<close>

fun edit_loop :: "string \<Rightarrow> string \<Rightarrow> Phone list \<Rightarrow> bool \<Rightarrow> error option \<times> Phone list \<times> bool" where
  "edit_loop old_phone new_phone [] found = (None, [], found)"
| "edit_loop old_phone new_phone (phone_item # rest) found =
     (if phone_value phone_item = old_phone then
        (case Phone_set_value new_phone of
           Inl e \<Rightarrow> (Some e, phone_item # rest, found)
         | Inr p \<Rightarrow>
             (case edit_loop old_phone new_phone rest True of
                (e, rest', found') \<Rightarrow> (e, p # rest', found')))
      else
        (case edit_loop old_phone new_phone rest found of
           (e, rest', found') \<Rightarrow> (e, phone_item # rest', found')))"

definition edit_phone :: "Record \<Rightarrow> string \<Rightarrow> string \<Rightarrow> error option \<times> Record" where
  "edit_phone r old_phone new_phone =
     (if length new_phone \<noteq> 10 \<or> \<not> isdigit new_phone
      then (Some (IncorrectPhoneFormat new_phone), r)
      else
        (case edit_loop old_phone new_phone (phones r) False of
           (Some e, ps, found) \<Rightarrow> (Some e, r\<lparr>phones := ps\<rparr>)
         | (None, ps, found) \<Rightarrow>
             if \<not> found then (Some (NumberDoesNotExist old_phone), r\<lparr>phones := ps\<rparr>)
             else (None, r\<lparr>phones := ps\<rparr>)))"

fun find_phone :: "Record \<Rightarrow> string \<Rightarrow> Phone option" where
  "find_phone r phone = find (\<lambda>p. phone_value p = phone) (phones r)"

text \<open>
  \<open>days_to_birthday\<close> reads the clock once; the value of \<open>datetime.now()\<close> is the
  argument \<open>today\<close>. The result is the exception raised, or the value returned, which
  is \<open>None\<close> or a number of days.
\<close>

definition days_to_birthday :: "Record \<Rightarrow> datetime \<Rightarrow> error + int option" where
  "days_to_birthday r today =
     (case birthday r of
        None \<Rightarrow> Inr None
      | Some b \<Rightarrow>
          (case replace_year (date b) (year today) of
             Inl e \<Rightarrow> Inl e
           | Inr birthdate \<Rightarrow>
               if datetime_gt today birthdate then
                 (case replace_year birthdate (year today + 1) of
                    Inl e \<Rightarrow> Inl e
                  | Inr birthdate' \<Rightarrow> Inr (Some (sub_days birthdate' today)))
               else Inr (Some (sub_days birthdate today))))"

text \<open>
  The records that the methods of \<open>Record\<close> can produce: a constructed record, and
  the record left by any call of \<open>add_phone\<close>, \<open>remove_phone\<close> or \<open>edit_phone\<close>,
  whether the call returned or raised.
\<close>

inductive reachable :: "Record \<Rightarrow> bool" where
  reach_init: "Record_init nm bd = Inr r \<Longrightarrow> reachable r"
| reach_add: "reachable r \<Longrightarrow> reachable (snd (add_phone r phone))"
| reach_remove: "reachable r \<Longrightarrow> reachable (remove_phone r phone)"
| reach_edit: "reachable r \<Longrightarrow> reachable (snd (edit_phone r old_phone new_phone))"

section \<open>AddressBook\<close>

text \<open>
  \<open>AddressBook\<close> is a \<open>UserDict\<close>: its \<open>data\<close> is a dictionary, which keeps its keys in
  the order of their first insertion. It is an association list in that order. The type
  of the values is left open. In the program they are references to \<open>Record\<close> objects:
  where objects are shared and changed in place (paging), the values are references
  into a store; where a fresh record is built and put into the book (\<open>add_contact\<close>),
  the values are the records.
\<close>

type_synonym 'r dict = "(string \<times> 'r) list"

definition dict_contains :: "'r dict \<Rightarrow> string \<Rightarrow> bool" where
  "dict_contains d k \<longleftrightarrow> map_of d k \<noteq> None"

text \<open>\<open>d[k] = v\<close>: a present key keeps its place, a new key goes to the end.\<close>

fun dict_set :: "'r dict \<Rightarrow> string \<Rightarrow> 'r \<Rightarrow> 'r dict" where
  "dict_set [] k v = [(k, v)]"
| "dict_set ((k', v') # d) k v =
     (if k' = k then (k', v) # d else (k', v') # dict_set d k v)"

definition dict_values :: "'r dict \<Rightarrow> 'r list" where
  "dict_values d = map snd d"

type_synonym AddressBook = "Record dict"

definition add_record :: "AddressBook \<Rightarrow> Record \<Rightarrow> AddressBook" where
  "add_record book record = dict_set book (name_value (name record)) record"

definition find_record :: "AddressBook \<Rightarrow> string \<Rightarrow> Record option" where
  "find_record book nm = map_of book nm"

definition delete :: "'r dict \<Rightarrow> string \<Rightarrow> 'r dict" where
  "delete book nm = (if dict_contains book nm then filter (\<lambda>kv. fst kv \<noteq> nm) book else book)"

text \<open>
  \<open>add_contact\<close> prints one message and returns; the message is the \<open>report\<close>:
  \<^item> \<open>InvalidContactName\<close>: "Error: Invalid contact name.";
  \<^item> \<open>AlreadyExists nm\<close>: "A contact with the name nm already exists. ...";
  \<^item> \<open>Rejected e\<close>: the text of the \<open>ValueError\<close> \<open>e\<close> that a \<open>try\<close> caught;
  \<^item> \<open>Added nm\<close>: "Contact nm added.".
  The two calls of \<open>add_phone\<close> are outside every \<open>try\<close>: an exception from them would
  leave \<open>add_contact\<close>, which is the result \<open>Inl\<close>. The second component is the book
  after the call.
\<close>

datatype report = InvalidContactName | AlreadyExists string | Rejected error | Added string

text \<open>
  A validation under the guard \<open>if x:\<close>: it runs when the optional argument is a string
  that is not empty; for \<open>None\<close> and for the empty string it is skipped and there is no
  value.
\<close>

definition if_truthy :: "(string \<Rightarrow> error + 'a) \<Rightarrow> string option \<Rightarrow> error + 'a option" where
  "if_truthy validate x = (if truthy x then map_sum id Some (validate (the x)) else Inr None)"

definition add_contact ::
  "AddressBook \<Rightarrow> string \<Rightarrow> string \<Rightarrow> string option \<Rightarrow> string option
     \<Rightarrow> (error + report) \<times> AddressBook" where
  "add_contact book nm phone1 phone2 bd =
     (if nm \<noteq> [] then
        if dict_contains book nm then (Inr (AlreadyExists nm), book)
        else
          case Name_init nm of
            Inl e \<Rightarrow> (Inr (Rejected e), book)
          | Inr name_field \<Rightarrow>
          case Phone_init phone1 of
            Inl e \<Rightarrow> (Inr (Rejected e), book)
          | Inr phone1_field \<Rightarrow>
          case (if truthy phone2 then map_sum id Some (Phone_init (the phone2)) else Inr None) of
            Inl e \<Rightarrow> (Inr (Rejected e), book)
          | Inr phone2_field \<Rightarrow>
          case Record_init (name_value name_field) bd of
            Inl e \<Rightarrow> (Inr (Rejected e), book)
          | Inr record0 \<Rightarrow>
          case add_phone record0 (phone_value phone1_field) of
            (Some e, _) \<Rightarrow> (Inl e, book)
          | (None, record1) \<Rightarrow>
          case (if truthy phone2 then add_phone record1 (phone_value (the phone2_field))
                else (None, record1)) of
            (Some e, _) \<Rightarrow> (Inl e, book)
          | (None, record2) \<Rightarrow> (Inr (Added nm), add_record book record2)
      else (Inr InvalidContactName, book))"

subsection \<open>The generator \<open>iterator\<close>\<close>

text \<open>
  \<open>records[a:b]\<close> for integers \<open>a\<close> and \<open>b\<close>: a negative index counts from the end, and
  both are clamped to the list.
\<close>

definition slice_index :: "int \<Rightarrow> int \<Rightarrow> nat" where
  "slice_index n i = nat (if i < 0 then max 0 (i + n) else min i n)"

definition py_slice :: "'a list \<Rightarrow> int \<Rightarrow> int \<Rightarrow> 'a list" where
  "py_slice xs a b =
     (let n = int (length xs); lo = slice_index n a; hi = slice_index n b
      in take (hi - lo) (drop lo xs))"

text \<open>
  \<open>iterator\<close> has a \<open>yield\<close> in its body, so it is a generator function: the call
  \<open>book.iterator(page_size)\<close> runs none of the body and returns a generator that
  holds \<open>self\<close> and \<open>page_size\<close>. The body runs when a page is requested: the first
  request runs it from its first line (which reads \<open>self.data\<close>) to the \<open>yield\<close>, each
  later one from the \<open>yield\<close> round the loop to the \<open>yield\<close> again, or to the end of the
  body, which is \<open>StopIteration\<close>. A generator is therefore in one of three states:
  created, suspended at the \<open>yield\<close> with the local variables \<open>records\<close>,
  \<open>total_records\<close>, \<open>current_page\<close> and \<open>page_size\<close>, or finished.
\<close>

datatype 'r generator =
    Created int
  | Suspended "'r list" int int int
  | Finished

definition iterator :: "'r dict \<Rightarrow> int \<Rightarrow> 'r generator" where
  "iterator book page_size = Created page_size"

text \<open>The test of the \<open>while\<close> loop, followed by the \<open>yield\<close> or by the end of the body.\<close>

definition loop_test :: "'r list \<Rightarrow> int \<Rightarrow> int \<Rightarrow> int \<Rightarrow> 'r list option \<times> 'r generator" where
  "loop_test records total_records current_page page_size =
     (if current_page < total_records
      then (Some (py_slice records current_page (current_page + page_size)),
            Suspended records total_records current_page page_size)
      else (None, Finished))"

text \<open>
  One request for a page (\<open>next\<close> on the generator). The generator reads the book
  through \<open>self\<close>, so the book is the one of the moment of the request; the result is the
  page, or \<open>None\<close> for \<open>StopIteration\<close>, and the generator afterwards.
\<close>

fun next_page :: "'r dict \<Rightarrow> 'r generator \<Rightarrow> 'r list option \<times> 'r generator" where
  "next_page book (Created page_size) =
     loop_test (dict_values book) (int (length book)) 0 page_size"
| "next_page book (Suspended records total_records current_page page_size) =
     loop_test records total_records (current_page + page_size) page_size"
| "next_page book Finished = (None, Finished)"

text \<open>
  A consumer that requests pages while the book changes: one request for each entry of
  the list, the entry being the book at the moment of that request, until
  \<open>StopIteration\<close> or the end of the list. It returns the pages it got and the generator
  as it left it. A page holds what the dictionary holds: with references as values, a
  page is a list of references.
\<close>

fun consume :: "'r dict list \<Rightarrow> 'r generator \<Rightarrow> 'r list list \<times> 'r generator" where
  "consume [] g = ([], g)"
| "consume (book # books) g =
     (case next_page book g of
        (None, g') \<Rightarrow> ([], g')
      | (Some page, g') \<Rightarrow>
          (case consume books g' of (pages, g'') \<Rightarrow> (page # pages, g'')))"

text \<open>
  The book and the pages hold references to \<open>Record\<close> objects, and the methods of
  \<open>Record\<close> change an object in place. A store gives the record at each reference;
  \<open>record.edit_phone(old, new)\<close> on the object at reference \<open>a\<close> changes the store at
  \<open>a\<close>, whether it returns or raises.
\<close>

type_synonym ref = nat

type_synonym store = "ref \<Rightarrow> Record"

definition edit_phone_at :: "store \<Rightarrow> ref \<Rightarrow> string \<Rightarrow> string \<Rightarrow> store" where
  "edit_phone_at st a old_phone new_phone =
     st(a := snd (edit_phone (st a) old_phone new_phone))"

text \<open>
  The loop that shows the pages, \<open>for page in book.iterator(n): for record in page:
  print(record)\<close>, while the book and its records change between the requests: each
  entry of the list is the book and the store at the moment of one request, and the
  records of a page are read from the store at that moment.
\<close>

fun show_pages ::
  "(ref dict \<times> store) list \<Rightarrow> ref generator \<Rightarrow> Record list list \<times> ref generator" where
  "show_pages [] g = ([], g)"
| "show_pages ((book, st) # rest) g =
     (case next_page book g of
        (None, g') \<Rightarrow> ([], g')
      | (Some page, g') \<Rightarrow>
          (case show_pages rest g' of (shown, g'') \<Rightarrow> (map st page # shown, g'')))"

text \<open>
  The pages as the specification describes them: consecutive slices of \<open>n\<close> elements,
  the last one holding the remainder.
\<close>

fun spec_pages :: "nat \<Rightarrow> 'a list \<Rightarrow> 'a list list" where
  "spec_pages n [] = []"
| "spec_pages n (x # xs) =
     (if n = 0 then [] else take n (x # xs) # spec_pages n (drop n (x # xs)))"

section \<open>Validation of names and phones\<close>

lemma Phone_init_eq:
  "Phone_init s =
     (if length s = 10 \<and> list_all digit_char s then Inr (MkPhone s)
      else Inl (IncorrectPhoneFormat s))"
  by (auto simp: Phone_init_def Phone_set_value_def isdigit_def)

lemma Phone_init_ascii:
  "length s = 10 \<Longrightarrow> list_all ascii_digit s \<Longrightarrow> Phone_init s = Inr (MkPhone s)"
  by (auto simp: Phone_init_eq digit_char_def list_all_iff)

lemma Phone_init_Inr: "Phone_init s = Inr q \<Longrightarrow> q = MkPhone s"
  by (simp add: Phone_init_eq split: if_splits)

lemma dropWhile_letters: "list_all ascii_letter s \<Longrightarrow> dropWhile ascii_letter s = []"
  by (induction s) auto

lemma Name_init_letters:
  "s \<noteq> [] \<Longrightarrow> list_all ascii_letter s \<Longrightarrow> Name_init s = Inr (MkName s)"
  by (simp add: Name_init_def Name_set_value_def re_match_letters_def dropWhile_letters)

text \<open>
  C6. A name must be a non-empty string of letters, and every other string must be
  refused. A string of letters is accepted (\<open>Name_init_letters\<close>), but \<open>$\<close> in the
  pattern also matches before a final newline: the string that is a single newline holds
  no letter and is accepted as a name, and so is a string of letters followed by a
  newline.
\<close>

theorem Name_accepts_final_newline:
  "Name_init [CHR 0x0A] = Inr (MkName [CHR 0x0A])
   \<and> \<not> list_all ascii_letter [CHR 0x0A]
   \<and> Name_init (''Bob'' @ [CHR 0x0A]) = Inr (MkName (''Bob'' @ [CHR 0x0A]))"
  by (simp add: Name_init_def Name_set_value_def re_match_letters_def ascii_letter_def)

text \<open>
  C7. A phone must be ten characters from 0 to 9, and every other string must be
  refused. Ten such characters are accepted (\<open>Phone_init_ascii\<close>), but \<open>isdigit\<close> also
  holds for the superscript digits: the string of ten characters U+00B2 (superscript
  two) holds no character from 0 to 9 and is accepted as a phone.
\<close>

theorem Phone_accepts_superscript_digits:
  "Phone_init [CHR 0xB2, CHR 0xB2, CHR 0xB2, CHR 0xB2, CHR 0xB2,
               CHR 0xB2, CHR 0xB2, CHR 0xB2, CHR 0xB2, CHR 0xB2]
     = Inr (MkPhone [CHR 0xB2, CHR 0xB2, CHR 0xB2, CHR 0xB2, CHR 0xB2,
                     CHR 0xB2, CHR 0xB2, CHR 0xB2, CHR 0xB2, CHR 0xB2])
   \<and> \<not> ascii_digit (CHR 0xB2)"
  by (simp add: Phone_init_def Phone_set_value_def isdigit_def digit_char_def ascii_digit_def)

section \<open>The phones of a record\<close>

lemma edit_loop_valid:
  "Phone_set_value new = Inr q \<Longrightarrow>
   edit_loop old new ps f =
     (None, map (\<lambda>p. if phone_value p = old then q else p) ps,
      f \<or> old \<in> phone_value ` set ps)"
  by (induction ps arbitrary: f) auto

lemma map_no_match:
  "old \<notin> phone_value ` set ps \<Longrightarrow> map (\<lambda>p. if phone_value p = old then q else p) ps = ps"
  by (induction ps) auto

lemma edit_loop_length:
  "edit_loop old new ps f = (e, ps', f') \<Longrightarrow> length ps' = length ps"
  by (induction ps arbitrary: f e ps' f') (auto split: sum.splits prod.splits if_splits)

lemma edit_phone_length: "length (phones (snd (edit_phone r old new))) = length (phones r)"
proof -
  obtain e ps' f' where l: "edit_loop old new (phones r) False = (e, ps', f')"
    by (cases "edit_loop old new (phones r) False") auto
  from edit_loop_length [OF l] show ?thesis
    by (auto simp: edit_phone_def l split: option.splits)
qed

lemma add_phone_length:
  "length (phones r) \<le> 2 \<Longrightarrow> length (phones (snd (add_phone r p))) \<le> 2"
  by (auto simp: add_phone_def split: sum.splits)

lemma remove_phone_length: "length (phones (remove_phone r p)) \<le> length (phones r)"
  by (simp add: remove_phone_def)

lemma remove_phone_shrinks:
  "p \<in> phone_value ` set (phones r) \<Longrightarrow>
   length (phones (remove_phone r p)) < length (phones r)"
  by (auto simp: remove_phone_def intro!: length_filter_less)

lemma reachable_le2: "reachable r \<Longrightarrow> length (phones r) \<le> 2"
proof (induction rule: reachable.induct)
  case (reach_init nm bd r)
  then show ?case by (auto simp: Record_init_def split: sum.splits if_splits)
next
  case (reach_add r phone)
  from reach_add.IH show ?case by (rule add_phone_length)
next
  case (reach_remove r phone)
  then show ?case using remove_phone_length [of r phone] by linarith
next
  case (reach_edit r old_phone new_phone)
  then show ?case by (simp add: edit_phone_length)
qed

text \<open>
  C4. \<open>edit_phone\<close> validates \<open>new\<close> as a phone before it looks at the phones: an invalid
  \<open>new\<close> raises the validation error and leaves the record as it was, whether or not a
  phone equals \<open>old\<close>. With a valid \<open>new\<close>, every phone equal to \<open>old\<close> becomes \<open>new\<close>;
  when no phone equals \<open>old\<close> the call raises "does not exist" and leaves the record as
  it was.
\<close>

theorem edit_phone_validates_then_replaces_all:
  "edit_phone r old new =
     (case Phone_init new of
        Inl e \<Rightarrow> (Some e, r)
      | Inr q \<Rightarrow>
          if old \<in> phone_value ` set (phones r)
          then (None, r\<lparr>phones := map (\<lambda>p. if phone_value p = old then q else p) (phones r)\<rparr>)
          else (Some (NumberDoesNotExist old), r))"
proof (cases "Phone_init new")
  case (Inl e)
  then show ?thesis
    by (auto simp: edit_phone_def Phone_init_def Phone_set_value_def split: if_splits)
next
  case (Inr q)
  then have ok: "\<not> (length new \<noteq> 10 \<or> \<not> isdigit new)" and q: "Phone_set_value new = Inr q"
    by (auto simp: Phone_init_def Phone_set_value_def split: if_splits)
  show ?thesis
    using ok Inr by (simp add: edit_phone_def edit_loop_valid [OF q] map_no_match)
qed

theorem edit_phone_validates_then_replaces_all_witness:
  "edit_phone \<lparr>name = MkName ''Bob'',
               phones = [MkPhone ''1111111111'', MkPhone ''1111111111''],
               birthday = None\<rparr> ''1111111111'' ''2222222222''
     = (None, \<lparr>name = MkName ''Bob'',
               phones = [MkPhone ''2222222222'', MkPhone ''2222222222''],
               birthday = None\<rparr>)
   \<and> edit_phone \<lparr>name = MkName ''Bob'', phones = [MkPhone ''1111111111''],
                 birthday = None\<rparr> ''3333333333'' ''12345''
     = (Some (IncorrectPhoneFormat ''12345''),
        \<lparr>name = MkName ''Bob'', phones = [MkPhone ''1111111111''], birthday = None\<rparr>)
   \<and> edit_phone \<lparr>name = MkName ''Bob'', phones = [MkPhone ''1111111111''],
                 birthday = None\<rparr> ''3333333333'' ''2222222222''
     = (Some (NumberDoesNotExist ''3333333333''),
        \<lparr>name = MkName ''Bob'', phones = [MkPhone ''1111111111''], birthday = None\<rparr>)"
  using
    edit_phone_validates_then_replaces_all
      [of "\<lparr>name = MkName ''Bob'', phones = [MkPhone ''1111111111'', MkPhone ''1111111111''],
            birthday = None\<rparr>" "''1111111111''" "''2222222222''"]
    edit_phone_validates_then_replaces_all
      [of "\<lparr>name = MkName ''Bob'', phones = [MkPhone ''1111111111''], birthday = None\<rparr>"
          "''3333333333''" "''12345''"]
    edit_phone_validates_then_replaces_all
      [of "\<lparr>name = MkName ''Bob'', phones = [MkPhone ''1111111111''], birthday = None\<rparr>"
          "''3333333333''" "''2222222222''"]
  by (simp add: Phone_init_eq digit_char_def ascii_digit_def)

text \<open>
  C10. \<open>add_phone\<close> tests the number of phones before it validates: on a record with two
  phones every argument, valid or not, raises "at most 2 phones" and the record stays as
  it was.
\<close>

theorem add_phone_capacity_before_format:
  "length (phones r) = 2 \<Longrightarrow> add_phone r raw = (Some AtMostTwoPhones, r)"
  by (simp add: add_phone_def)

theorem add_phone_capacity_before_format_witness:
  "length (phones \<lparr>name = MkName ''Bob'',
                   phones = [MkPhone ''1111111111'', MkPhone ''2222222222''],
                   birthday = None\<rparr>) = 2
   \<and> Phone_init ''not a phone'' = Inl (IncorrectPhoneFormat ''not a phone'')
   \<and> add_phone \<lparr>name = MkName ''Bob'',
                 phones = [MkPhone ''1111111111'', MkPhone ''2222222222''],
                 birthday = None\<rparr> ''not a phone''
       = (Some AtMostTwoPhones,
          \<lparr>name = MkName ''Bob'',
             phones = [MkPhone ''1111111111'', MkPhone ''2222222222''],
             birthday = None\<rparr>)"
  using add_phone_capacity_before_format
    [of "\<lparr>name = MkName ''Bob'', phones = [MkPhone ''1111111111'', MkPhone ''2222222222''],
          birthday = None\<rparr>" "''not a phone''"]
  by (simp add: Phone_init_eq)

text \<open>
  C5. A record that the methods can produce holds at most two phones. On such a record
  \<open>add_phone\<close> raises "at most 2 phones" when there are two phones, and otherwise
  validates its argument and appends the phone at the end. The bound is on the phones
  held now: after \<open>remove_phone\<close> has removed a phone of a record with two phones,
  \<open>add_phone\<close> with a valid phone succeeds.
\<close>

theorem record_holds_at_most_two_phones:
  assumes "reachable r"
  shows "length (phones r) \<le> 2 \<and>
    add_phone r raw =
      (if length (phones r) = 2 then (Some AtMostTwoPhones, r)
       else case Phone_init raw of
              Inl e \<Rightarrow> (Some e, r)
            | Inr p \<Rightarrow> (None, r\<lparr>phones := phones r @ [p]\<rparr>)) \<and>
    (length (phones r) = 2 \<and> old \<in> phone_value ` set (phones r) \<and> Phone_init new = Inr q \<longrightarrow>
       add_phone (remove_phone r old) new =
         (None, r\<lparr>phones := filter (\<lambda>p. phone_value p \<noteq> old) (phones r) @ [q]\<rparr>))"
proof -
  have le: "length (phones r) \<le> 2" using assms by (rule reachable_le2)
  have a: "add_phone r raw =
      (if length (phones r) = 2 then (Some AtMostTwoPhones, r)
       else case Phone_init raw of
              Inl e \<Rightarrow> (Some e, r)
            | Inr p \<Rightarrow> (None, r\<lparr>phones := phones r @ [p]\<rparr>))"
    using le by (auto simp: add_phone_def)
  have b: "add_phone (remove_phone r old) new =
         (None, r\<lparr>phones := filter (\<lambda>p. phone_value p \<noteq> old) (phones r) @ [q]\<rparr>)"
    if "length (phones r) = 2" "old \<in> phone_value ` set (phones r)" "Phone_init new = Inr q"
  proof -
    have "length (phones (remove_phone r old)) < 2"
      using remove_phone_shrinks [OF that(2)] that(1) by simp
    then show ?thesis using that(3) by (simp add: add_phone_def remove_phone_def)
  qed
  show ?thesis using le a b by blast
qed

theorem record_holds_at_most_two_phones_witness:
  "reachable \<lparr>name = MkName ''Bob'',
              phones = [MkPhone ''1111111111'', MkPhone ''2222222222''],
              birthday = None\<rparr>
   \<and> add_phone \<lparr>name = MkName ''Bob'',
                 phones = [MkPhone ''1111111111'', MkPhone ''2222222222''],
                 birthday = None\<rparr> ''3333333333''
       = (Some AtMostTwoPhones,
          \<lparr>name = MkName ''Bob'',
             phones = [MkPhone ''1111111111'', MkPhone ''2222222222''],
             birthday = None\<rparr>)
   \<and> add_phone (remove_phone \<lparr>name = MkName ''Bob'',
                 phones = [MkPhone ''1111111111'', MkPhone ''2222222222''],
                 birthday = None\<rparr> ''1111111111'') ''3333333333''
       = (None,
          \<lparr>name = MkName ''Bob'',
             phones = [MkPhone ''2222222222'', MkPhone ''3333333333''],
             birthday = None\<rparr>)"
proof -
  let ?r0 = "\<lparr>name = MkName ''Bob'', phones = [], birthday = None\<rparr>"
  let ?r1 = "\<lparr>name = MkName ''Bob'', phones = [MkPhone ''1111111111''], birthday = None\<rparr>"
  let ?r2 = "\<lparr>name = MkName ''Bob'',
              phones = [MkPhone ''1111111111'', MkPhone ''2222222222''], birthday = None\<rparr>"
  have digits: "Phone_init ''1111111111'' = Inr (MkPhone ''1111111111'')"
    "Phone_init ''2222222222'' = Inr (MkPhone ''2222222222'')"
    "Phone_init ''3333333333'' = Inr (MkPhone ''3333333333'')"
    by (simp_all add: Phone_init_eq digit_char_def ascii_digit_def)
  have "Record_init ''Bob'' None = Inr ?r0"
    by (simp add: Record_init_def Name_init_letters ascii_letter_def)
  then have r0: "reachable ?r0" by (rule reach_init)
  have r1: "reachable ?r1"
    using reach_add [OF r0, of "''1111111111''"] by (simp add: add_phone_def digits)
  have r2: "reachable ?r2"
    using reach_add [OF r1, of "''2222222222''"] by (simp add: add_phone_def digits)
  show ?thesis
    using r2 record_holds_at_most_two_phones
      [OF r2, of "''3333333333''" "''1111111111''" "''3333333333''" "MkPhone ''3333333333''"]
    by (simp add: digits)
qed

section \<open>Parsing dates\<close>

lemma digit_values [simp]:
  "digit_value CHR ''0'' = 0" "digit_value CHR ''1'' = 1" "digit_value CHR ''2'' = 2"
  "digit_value CHR ''3'' = 3" "digit_value CHR ''4'' = 4" "digit_value CHR ''5'' = 5"
  "digit_value CHR ''6'' = 6" "digit_value CHR ''7'' = 7" "digit_value CHR ''8'' = 8"
  "digit_value CHR ''9'' = 9"
  by (simp_all add: digit_value_def)

lemma strptime_2000_02_29:
  "strptime_ymd ''2000-02-29'' =
     Some \<lparr>year = 2000, month = 2, day = 29, hour = 0, minute = 0, second = 0, microsecond = 0\<rparr>"
  by (simp add: strptime_ymd_def matches_ymd_def parse_m_def parse_d_def ascii_digit_def
      nonzero_digit_def days_in_month_def is_leap_def)

lemma strptime_2000_01_01:
  "strptime_ymd ''2000-01-01'' =
     Some \<lparr>year = 2000, month = 1, day = 1, hour = 0, minute = 0, second = 0, microsecond = 0\<rparr>"
  by (simp add: strptime_ymd_def matches_ymd_def parse_m_def parse_d_def ascii_digit_def
      nonzero_digit_def days_in_month_def is_leap_def)

lemma nonzero_digit_range: "nonzero_digit c \<Longrightarrow> 1 \<le> digit_value c \<and> digit_value c \<le> 9"
  by (auto simp: nonzero_digit_def)

lemma ascii_digit_range: "ascii_digit c \<Longrightarrow> 0 \<le> digit_value c \<and> digit_value c \<le> 9"
  by (auto simp: ascii_digit_def)

lemma one_char_range:
  "(v, rest) \<in> set (one_char nonzero_digit s) \<Longrightarrow> 1 \<le> v \<and> v \<le> 9"
  by (cases s) (auto split: if_splits dest: nonzero_digit_range)

lemma space_char_range: "(v, rest) \<in> set (space_char s) \<Longrightarrow> 1 \<le> v \<and> v \<le> 9"
  by (cases s rule: space_char.cases) (auto split: if_splits dest: nonzero_digit_range)

lemma two_chars_elim:
  assumes "(v, rest) \<in> set (two_chars P Q s)"
  obtains a b where "P a" "Q b" "v = 10 * digit_value a + digit_value b"
  using assms by (cases "(P, Q, s)" rule: two_chars.cases) (auto split: if_splits)

lemma parse_m_range: "(v, rest) \<in> set (parse_m s) \<Longrightarrow> 1 \<le> v \<and> v \<le> 12"
  unfolding parse_m_def
  by (auto elim!: two_chars_elim dest: one_char_range nonzero_digit_range)

lemma parse_d_range: "(v, rest) \<in> set (parse_d s) \<Longrightarrow> 1 \<le> v \<and> v \<le> 31"
  unfolding parse_d_def
  by (auto elim!: two_chars_elim dest: one_char_range space_char_range nonzero_digit_range
        ascii_digit_range)

lemma matches_ymd_range:
  "((y, m, d), rest) \<in> set (matches_ymd s) \<Longrightarrow> 1 \<le> m \<and> m \<le> 12 \<and> 1 \<le> d \<and> d \<le> 31"
  unfolding matches_ymd_def
  by (auto split: option.splits dest: parse_m_range parse_d_range)

section \<open>The calendar\<close>

lemma month_cases:
  "1 \<le> m \<Longrightarrow> m \<le> 12 \<Longrightarrow>
   m = 1 \<or> m = 2 \<or> m = 3 \<or> m = 4 \<or> m = 5 \<or> m = 6 \<or> m = 7 \<or> m = 8 \<or> m = 9 \<or> m = 10
     \<or> m = 11 \<or> m = (12::int)"
  by arith

lemma days_before_next_month:
  "1 \<le> m \<Longrightarrow> m \<le> 11 \<Longrightarrow>
   days_before_month y (m + 1) = days_before_month y m + days_in_month y m"
  using month_cases [of m]
  by (auto simp: days_before_month_def days_in_month_def)

lemma days_in_month_pos: "1 \<le> m \<Longrightarrow> m \<le> 12 \<Longrightarrow> 28 \<le> days_in_month y m"
  using month_cases [of m] by (auto simp: days_in_month_def)

lemma days_before_month_nonneg: "1 \<le> m \<Longrightarrow> m \<le> 12 \<Longrightarrow> 0 \<le> days_before_month y m"
  using month_cases [of m] by (auto simp: days_before_month_def)

lemma days_before_month_mono:
  assumes "1 \<le> m1" "m1 < m2" "m2 \<le> 12"
  shows "days_before_month y m1 + days_in_month y m1 \<le> days_before_month y m2"
proof -
  have "0 \<le> k \<Longrightarrow> m1 + 1 + k \<le> 12 \<Longrightarrow>
        days_before_month y m1 + days_in_month y m1 \<le> days_before_month y (m1 + 1 + k)" for k
  proof (induction k rule: int_ge_induct)
    case base
    then show ?case using assms(1) by (simp add: days_before_next_month)
  next
    case (step i)
    have "days_before_month y (m1 + 1 + i + 1)
            = days_before_month y (m1 + 1 + i) + days_in_month y (m1 + 1 + i)"
      using step assms(1) by (intro days_before_next_month) auto
    moreover have "28 \<le> days_in_month y (m1 + 1 + i)"
      using step assms(1) by (intro days_in_month_pos) auto
    ultimately show ?case using step by (simp add: add.assoc)
  qed
  from this [of "m2 - m1 - 1"] assms show ?thesis by simp
qed

lemma days_in_year:
  "1 \<le> m \<Longrightarrow> m \<le> 12 \<Longrightarrow>
   days_before_month y m + days_in_month y m \<le> 365 + (if is_leap y then 1 else 0)"
  using month_cases [of m]
  by (auto simp: days_before_month_def days_in_month_def)

lemma div_pred:
  fixes y n :: int
  assumes "0 < n"
  shows "y div n = (y - 1) div n + (if y mod n = 0 then 1 else 0)"
proof (cases "y mod n = 0")
  case True
  have "y = n * (y div n)" using True mult_div_mod_eq [of n y] by simp
  then have "y - 1 = n * (y div n - 1) + (n - 1)"
    by (simp add: right_diff_distrib)
  then have "(y - 1) div n = y div n - 1"
    using assms by (intro int_div_pos_eq [where r = "n - 1"]) auto
  with True show ?thesis by simp
next
  case False
  have r: "0 \<le> y mod n" "y mod n < n" using assms by auto
  have "y = n * (y div n) + y mod n" using mult_div_mod_eq [of n y] by simp
  then have "y - 1 = n * (y div n) + (y mod n - 1)"
    by linarith
  then have "(y - 1) div n = y div n"
    using assms r False by (intro int_div_pos_eq [where r = "y mod n - 1"]) auto
  with False show ?thesis by simp
qed

lemma leap_step:
  fixes y p4 p100 p400 q4 q100 q400 :: int
  assumes "C \<Longrightarrow> B" "B \<Longrightarrow> A"
    and "q4 = p4 + (if A then 1 else 0)"
    and "q100 = p100 + (if B then 1 else 0)"
    and "q400 = p400 + (if C then 1 else 0)"
  shows "y * 365 + q4 - q100 + q400 =
         (y - 1) * 365 + p4 - p100 + p400 + 365 + (if A \<and> (\<not> B \<or> C) then 1 else 0)"
  using assms by (cases A; cases B; cases C) (simp_all add: left_diff_distrib)

lemma days_before_next_year:
  "days_before_year (y + 1) = days_before_year y + 365 + (if is_leap y then 1 else 0)"
proof -
  have d: "y mod 100 = 0" if "y mod 400 = 0"
  proof -
    have "(400::int) dvd y" using that by (simp only: mod_eq_0_iff_dvd)
    moreover have "(100::int) dvd 400" by simp
    ultimately have "(100::int) dvd y" using dvd_trans by blast
    then show ?thesis by (simp only: mod_eq_0_iff_dvd)
  qed
  have e: "y mod 4 = 0" if "y mod 100 = 0"
  proof -
    have "(100::int) dvd y" using that by (simp only: mod_eq_0_iff_dvd)
    moreover have "(4::int) dvd 100" by simp
    ultimately have "(4::int) dvd y" using dvd_trans by blast
    then show ?thesis by (simp only: mod_eq_0_iff_dvd)
  qed
  have a4: "y div 4 = (y - 1) div 4 + (if y mod 4 = 0 then 1 else 0)"
    by (rule div_pred) simp
  have a100: "y div 100 = (y - 1) div 100 + (if y mod 100 = 0 then 1 else 0)"
    by (rule div_pred) simp
  have a400: "y div 400 = (y - 1) div 400 + (if y mod 400 = 0 then 1 else 0)"
    by (rule div_pred) simp
  have "y * 365 + y div 4 - y div 100 + y div 400 =
        (y - 1) * 365 + (y - 1) div 4 - (y - 1) div 100 + (y - 1) div 400 + 365
          + (if y mod 4 = 0 \<and> (\<not> y mod 100 = 0 \<or> y mod 400 = 0) then 1 else 0)"
    by (rule leap_step [OF d e a4 a100 a400])
  then show ?thesis
    by (simp only: days_before_year_def is_leap_def add_diff_cancel_right')
qed

lemma time_bounds:
  fixes h mi s us :: int
  assumes "0 \<le> h" "h < 24" "0 \<le> mi" "mi < 60" "0 \<le> s" "s < 60" "0 \<le> us" "us < 1000000"
  shows "0 \<le> (s + mi * 60 + h * 3600) * 1000000 + us"
    and "(s + mi * 60 + h * 3600) * 1000000 + us < 86400000000"
    and "(s + mi * 60 + h * 3600) * 1000000 + us = 0 \<longleftrightarrow> h = 0 \<and> mi = 0 \<and> s = 0 \<and> us = 0"
proof -
  let ?t = "s * 1000000 + mi * 60000000 + h * 3600000000 + us"
  have eq: "(s + mi * 60 + h * 3600) * 1000000 + us = ?t" by (simp add: distrib_right)
  show "0 \<le> (s + mi * 60 + h * 3600) * 1000000 + us"
    unfolding eq using assms by linarith
  show "(s + mi * 60 + h * 3600) * 1000000 + us < 86400000000"
    unfolding eq using assms by linarith
  show "(s + mi * 60 + h * 3600) * 1000000 + us = 0 \<longleftrightarrow> h = 0 \<and> mi = 0 \<and> s = 0 \<and> us = 0"
    unfolding eq using assms by linarith
qed

lemma microseconds_of_day_range:
  "valid_datetime t \<Longrightarrow> 0 \<le> microseconds_of_day t \<and> microseconds_of_day t < 86400000000"
  unfolding valid_datetime_def microseconds_of_day_def seconds_of_day_def
  using time_bounds(1,2) [of "hour t" "minute t" "second t" "microsecond t"] by blast

lemma microseconds_of_day_zero:
  "valid_datetime t \<Longrightarrow> microseconds_of_day t = 0 \<longleftrightarrow> midnight t"
  unfolding valid_datetime_def microseconds_of_day_def seconds_of_day_def midnight_def
  using time_bounds(3) [of "hour t" "minute t" "second t" "microsecond t"] by blast

lemma floor_days:
  fixes k x D :: int
  assumes "0 \<le> x" "x < D"
  shows "(k * D - x) div D = (if x = 0 then k else k - 1)"
proof (cases "x = 0")
  case True
  then show ?thesis using assms by simp
next
  case False
  have "k * D - x = D * (k - 1) + (D - x)" by (simp add: algebra_simps)
  then have "(k * D - x) div D = k - 1"
    using assms False by (intro int_div_pos_eq [where r = "D - x"]) auto
  with False show ?thesis by simp
qed

lemma sub_days_midnight:
  assumes "midnight a" "valid_datetime b"
  shows "sub_days a b =
           toordinal a - toordinal b - (if midnight b then 0 else 1)"
proof -
  have "seconds_of_day a = 0" "microsecond a = 0"
    using assms(1) by (simp_all add: midnight_def seconds_of_day_def)
  then have "sub_days a b =
      ((toordinal a - toordinal b) * 86400000000 - microseconds_of_day b) div 86400000000"
    by (simp add: sub_days_def microseconds_of_day_def algebra_simps)
  also have "\<dots> = (if microseconds_of_day b = 0 then toordinal a - toordinal b
                   else toordinal a - toordinal b - 1)"
    using microseconds_of_day_range [OF assms(2)] by (intro floor_days) auto
  finally show ?thesis
    using microseconds_of_day_zero [OF assms(2)] by auto
qed

lemma gt_same_year:
  assumes "valid_datetime t" "midnight a" "year a = year t"
  shows "datetime_gt t a \<longleftrightarrow>
           month a < month t \<or>
           (month t = month a \<and> (day a < day t \<or> (day t = day a \<and> \<not> midnight t)))"
  using assms unfolding datetime_gt_def midnight_def valid_datetime_def
  by auto

lemma toordinal_later_in_year:
  assumes "valid_datetime t" "year a = year t" "month a \<le> 12" "1 \<le> day a"
    and "month t < month a \<or> (month t = month a \<and> day t < day a)"
  shows "toordinal t < toordinal a"
proof -
  from assms(5) show ?thesis
  proof
    assume lt: "month t < month a"
    have "days_before_month (year t) (month t) + days_in_month (year t) (month t)
            \<le> days_before_month (year t) (month a)"
      using assms(1,3) lt by (intro days_before_month_mono) (auto simp: valid_datetime_def)
    moreover have "day t \<le> days_in_month (year t) (month t)"
      using assms(1) by (simp add: valid_datetime_def)
    ultimately show ?thesis
      using assms(2,4) by (simp add: toordinal_def ymd2ord_def)
  next
    assume "month t = month a \<and> day t < day a"
    then show ?thesis using assms(2) by (simp add: toordinal_def ymd2ord_def)
  qed
qed

lemma toordinal_next_year:
  assumes "valid_datetime t" "year a = year t + 1" "1 \<le> month a" "month a \<le> 12" "1 \<le> day a"
  shows "toordinal t < toordinal a"
proof -
  have "days_before_month (year t) (month t) + days_in_month (year t) (month t)
          \<le> 365 + (if is_leap (year t) then 1 else 0)"
    using assms(1) by (intro days_in_year) (auto simp: valid_datetime_def)
  moreover have "day t \<le> days_in_month (year t) (month t)"
    using assms(1) by (simp add: valid_datetime_def)
  moreover have "0 \<le> days_before_month (year a) (month a)"
    using assms(3,4) by (rule days_before_month_nonneg)
  ultimately show ?thesis
    using assms(2,5) days_before_next_year [of "year t"]
    by (simp add: toordinal_def ymd2ord_def)
qed

lemma days_to_birthday_nonneg:
  assumes t: "valid_datetime today"
    and b: "birthday r = Some b" "valid_datetime (date b)" "midnight (date b)"
    and n: "days_to_birthday r today = Inr (Some n)"
  shows "0 \<le> n"
proof -
  let ?a = "(date b)\<lparr>year := year today\<rparr>"
  let ?a' = "(date b)\<lparr>year := year today + 1\<rparr>"
  have m: "1 \<le> month (date b)" "month (date b) \<le> 12" "1 \<le> day (date b)"
    using b(2) by (simp_all add: valid_datetime_def)
  have mid: "midnight ?a" "midnight ?a'" using b(3) by (simp_all add: midnight_def)
  show ?thesis
  proof (cases "datetime_gt today ?a")
    case True
    with n b(1) have "n = sub_days ?a' today"
      by (auto simp: days_to_birthday_def replace_year_def split: if_splits)
    moreover have "toordinal today < toordinal ?a'"
      using t m by (intro toordinal_next_year) auto
    ultimately show ?thesis
      using sub_days_midnight [OF mid(2) t] by (simp split: if_splits)
  next
    case False
    with n b(1) have eq: "n = sub_days ?a today"
      by (auto simp: days_to_birthday_def replace_year_def split: if_splits)
    from False have
      "\<not> (month (date b) < month today \<or>
          (month today = month (date b) \<and>
             (day (date b) < day today \<or> (day today = day (date b) \<and> \<not> midnight today))))"
      using gt_same_year [OF t mid(1)] by simp
    then consider
      "month today < month (date b) \<or> (month today = month (date b) \<and> day today < day (date b))"
      | "month today = month (date b)" "day today = day (date b)" "midnight today"
      by linarith
    then show ?thesis
    proof cases
      case 1
      then have "toordinal today < toordinal ?a"
        using t m by (intro toordinal_later_in_year) auto
      then show ?thesis
        using sub_days_midnight [OF mid(1) t] eq by (simp split: if_splits)
    next
      case 2
      then have "toordinal ?a = toordinal today" by (simp add: toordinal_def)
      then show ?thesis
        using sub_days_midnight [OF mid(1) t] eq 2(3) by simp
    qed
  qed
qed

section \<open>Days to the birthday\<close>

lemma parse_Y_range: "(y, rest) \<in> set (parse_Y s) \<Longrightarrow> 0 \<le> y \<and> y \<le> 9999"
proof (cases s rule: parse_Y.cases)
  case (1 a b c d rest')
  assume "(y, rest) \<in> set (parse_Y s)"
  with 1 have "ascii_digit a" "ascii_digit b" "ascii_digit c" "ascii_digit d"
    and y: "y = 1000 * digit_value a + 100 * digit_value b + 10 * digit_value c + digit_value d"
    by (auto split: if_splits)
  then show ?thesis using ascii_digit_range [of a] ascii_digit_range [of b]
      ascii_digit_range [of c] ascii_digit_range [of d] by linarith
qed auto

lemma matches_ymd_year:
  "((y, m, d), rest) \<in> set (matches_ymd s) \<Longrightarrow> 0 \<le> y \<and> y \<le> 9999"
  unfolding matches_ymd_def
  by (auto split: option.splits dest: parse_Y_range)

lemma strptime_ymd_valid:
  assumes "strptime_ymd s = Some t"
  shows "valid_datetime t \<and> midnight t"
proof -
  from assms obtain y m d rest xs where
    ms: "matches_ymd s = ((y, m, d), rest) # xs"
    and ok: "\<not> y < 1" "\<not> days_in_month y m < d"
    and t: "t = \<lparr>year = y, month = m, day = d, hour = 0, minute = 0, second = 0,
               microsecond = 0\<rparr>"
    by (auto simp: strptime_ymd_def split: list.splits if_splits)
  from ms have "((y, m, d), rest) \<in> set (matches_ymd s)" by simp
  from matches_ymd_range [OF this] matches_ymd_year [OF this] ok t
  show ?thesis by (simp add: valid_datetime_def midnight_def)
qed

lemma Birthday_init_valid:
  "Birthday_init s = Inr b \<Longrightarrow> valid_datetime (date b) \<and> midnight (date b)"
  by (auto simp: Birthday_init_def Birthday_set_value_def split: option.splits
      dest: strptime_ymd_valid)

lemma add_phone_birthday: "birthday (snd (add_phone r p)) = birthday r"
  by (auto simp: add_phone_def split: sum.splits)

lemma remove_phone_birthday: "birthday (remove_phone r p) = birthday r"
  by (simp add: remove_phone_def)

lemma edit_phone_birthday: "birthday (snd (edit_phone r old new)) = birthday r"
  by (auto simp: edit_phone_def split: prod.splits option.splits)

lemma reachable_birthday:
  "reachable r \<Longrightarrow> birthday r = Some b \<Longrightarrow> valid_datetime (date b) \<and> midnight (date b)"
proof (induction arbitrary: b rule: reachable.induct)
  case (reach_init nm bd r)
  then show ?case
    by (auto simp: Record_init_def split: sum.splits if_splits dest: Birthday_init_valid)
qed (simp_all add: add_phone_birthday remove_phone_birthday edit_phone_birthday)

lemma Birthday_2000_01_01:
  "Birthday_init ''2000-01-01'' =
     Inr \<lparr>date = \<lparr>year = 2000, month = 1, day = 1, hour = 0, minute = 0, second = 0,
                   microsecond = 0\<rparr>, birthday_value = ''2000-01-01''\<rparr>"
  by (simp add: Birthday_init_def Birthday_set_value_def strptime_2000_01_01)

lemma Birthday_2000_02_29:
  "Birthday_init ''2000-02-29'' =
     Inr \<lparr>date = \<lparr>year = 2000, month = 2, day = 29, hour = 0, minute = 0, second = 0,
                   microsecond = 0\<rparr>, birthday_value = ''2000-02-29''\<rparr>"
  by (simp add: Birthday_init_def Birthday_set_value_def strptime_2000_02_29)

lemma days_to_birthday_None: "days_to_birthday r today = Inr None \<longleftrightarrow> birthday r = None"
  by (auto simp: days_to_birthday_def split: option.splits sum.splits)

lemma new_year_birthday:
  assumes b: "birthday r = Some b"
      "date b = \<lparr>year = 2000, month = 1, day = 1, hour = 0, minute = 0, second = 0,
                 microsecond = 0\<rparr>"
    and t: "valid_datetime today" "year today = 2023" "month today = 1"
  shows "day today = 1 \<Longrightarrow>
           days_to_birthday r today = Inr (Some (if midnight today then 0 else 364))"
    and "day today = 2 \<Longrightarrow>
           days_to_birthday r today = Inr (Some (if midnight today then 364 else 363))"
proof -
  let ?a = "(date b)\<lparr>year := 2023\<rparr>"
  let ?a' = "(date b)\<lparr>year := 2024\<rparr>"
  have mid: "midnight ?a" "midnight ?a'" using b(2) by (simp_all add: midnight_def)
  have r1: "replace_year (date b) 2023 = Inr ?a"
    using b(2) by (simp add: replace_year_def days_in_month_def)
  have r2: "replace_year ?a 2024 = Inr ?a'"
    using b(2) by (simp add: replace_year_def days_in_month_def)
  have gt: "datetime_gt today ?a \<longleftrightarrow> 1 < day today \<or> (day today = 1 \<and> \<not> midnight today)"
    using gt_same_year [OF t(1) mid(1)] t(2,3) b(2) by auto
  have ord: "toordinal ?a = 738521" "toordinal ?a' = 738886"
    using b(2) by (simp_all add: toordinal_def ymd2ord_def days_before_year_def
        days_before_month_def is_leap_def)
  have ordt: "toordinal today = 738520 + day today"
    using t(2,3) by (simp add: toordinal_def ymd2ord_def days_before_year_def
        days_before_month_def is_leap_def)
  show "days_to_birthday r today = Inr (Some (if midnight today then 0 else 364))"
    if "day today = 1"
    using that b(1) t(2) gt ord ordt
    by (simp add: days_to_birthday_def r1 r2 sub_days_midnight [OF mid(1) t(1)]
        sub_days_midnight [OF mid(2) t(1)])
  show "days_to_birthday r today = Inr (Some (if midnight today then 364 else 363))"
    if "day today = 2"
    using that b(1) t(2) gt ord ordt
    by (simp add: days_to_birthday_def r1 r2 sub_days_midnight [OF mid(1) t(1)]
        sub_days_midnight [OF mid(2) t(1)])
qed

text \<open>
  C9. The string "2000-02-29" is a valid birthday, and a record can be constructed with
  it. In a year that is not a leap year \<open>days_to_birthday\<close> then raises the
  \<open>ValueError\<close> of \<open>replace\<close> instead of returning a number; it does so for every
  record whose birthday is a 29th of February.
\<close>

theorem leap_day_birthday_raises:
  assumes "Name_init nm = Inr n" and "\<not> is_leap (year today)"
  shows "Birthday_init ''2000-02-29'' =
           Inr \<lparr>date = \<lparr>year = 2000, month = 2, day = 29, hour = 0, minute = 0, second = 0,
                         microsecond = 0\<rparr>, birthday_value = ''2000-02-29''\<rparr>
    \<and> Record_init nm (Some ''2000-02-29'') =
           Inr \<lparr>name = n, phones = [],
                birthday = Some \<lparr>date = \<lparr>year = 2000, month = 2, day = 29, hour = 0,
                                          minute = 0, second = 0, microsecond = 0\<rparr>,
                                 birthday_value = ''2000-02-29''\<rparr>\<rparr>
    \<and> days_to_birthday
          \<lparr>name = n, phones = [],
             birthday = Some \<lparr>date = \<lparr>year = 2000, month = 2, day = 29, hour = 0,
                                       minute = 0, second = 0, microsecond = 0\<rparr>,
                              birthday_value = ''2000-02-29''\<rparr>\<rparr> today
        = Inl DateOutOfRange
    \<and> (\<forall>r b. birthday r = Some b \<and> month (date b) = 2 \<and> day (date b) = 29
          \<longrightarrow> days_to_birthday r today = Inl DateOutOfRange)"
proof -
  have general: "days_to_birthday r today = Inl DateOutOfRange"
    if "birthday r = Some b" "month (date b) = 2" "day (date b) = 29" for r b
    using that assms(2) by (simp add: days_to_birthday_def replace_year_def days_in_month_def)
  have rec: "Record_init nm (Some ''2000-02-29'') =
           Inr \<lparr>name = n, phones = [],
                birthday = Some \<lparr>date = \<lparr>year = 2000, month = 2, day = 29, hour = 0,
                                          minute = 0, second = 0, microsecond = 0\<rparr>,
                                 birthday_value = ''2000-02-29''\<rparr>\<rparr>"
    using assms(1) by (simp add: Record_init_def Birthday_2000_02_29)
  show ?thesis
    using general rec by (simp add: Birthday_2000_02_29)
qed

theorem leap_day_birthday_raises_witness:
  "Name_init ''Bob'' = Inr (MkName ''Bob'')
   \<and> \<not> is_leap 2023
   \<and> Record_init ''Bob'' (Some ''2000-02-29'') =
           Inr \<lparr>name = MkName ''Bob'', phones = [],
                birthday = Some \<lparr>date = \<lparr>year = 2000, month = 2, day = 29, hour = 0,
                                          minute = 0, second = 0, microsecond = 0\<rparr>,
                                 birthday_value = ''2000-02-29''\<rparr>\<rparr>
   \<and> days_to_birthday
          \<lparr>name = MkName ''Bob'', phones = [],
             birthday = Some \<lparr>date = \<lparr>year = 2000, month = 2, day = 29, hour = 0,
                                       minute = 0, second = 0, microsecond = 0\<rparr>,
                              birthday_value = ''2000-02-29''\<rparr>\<rparr>
          \<lparr>year = 2023, month = 6, day = 15, hour = 10, minute = 30, second = 0,
             microsecond = 0\<rparr>
        = Inl DateOutOfRange"
proof -
  have nm: "Name_init ''Bob'' = Inr (MkName ''Bob'')"
    by (simp add: Name_init_letters ascii_letter_def)
  have ly: "\<not> is_leap (year \<lparr>year = 2023, month = 6, day = 15, hour = 10, minute = 30,
                               second = 0, microsecond = 0\<rparr>)"
    by (simp add: is_leap_def)
  from leap_day_birthday_raises [OF nm ly] nm ly show ?thesis by simp
qed

text \<open>
  C3. The two examples do not hold at an arbitrary time of day: for the birthday
  "2000-01-01", at noon of 2023-01-01 the result is 364, not 0, and at noon of the day
  after it is 363, neither 364 nor 365.
\<close>

theorem days_to_birthday_same_day_counterexample:
  "Record_init ''Bob'' (Some ''2000-01-01'') =
     Inr \<lparr>name = MkName ''Bob'', phones = [],
          birthday = Some \<lparr>date = \<lparr>year = 2000, month = 1, day = 1, hour = 0, minute = 0,
                                    second = 0, microsecond = 0\<rparr>,
                           birthday_value = ''2000-01-01''\<rparr>\<rparr>
   \<and> days_to_birthday
        \<lparr>name = MkName ''Bob'', phones = [],
           birthday = Some \<lparr>date = \<lparr>year = 2000, month = 1, day = 1, hour = 0, minute = 0,
                                     second = 0, microsecond = 0\<rparr>,
                            birthday_value = ''2000-01-01''\<rparr>\<rparr>
        \<lparr>year = 2023, month = 1, day = 1, hour = 12, minute = 0, second = 0, microsecond = 0\<rparr>
      = Inr (Some 364)
   \<and> days_to_birthday
        \<lparr>name = MkName ''Bob'', phones = [],
           birthday = Some \<lparr>date = \<lparr>year = 2000, month = 1, day = 1, hour = 0, minute = 0,
                                     second = 0, microsecond = 0\<rparr>,
                            birthday_value = ''2000-01-01''\<rparr>\<rparr>
        \<lparr>year = 2023, month = 1, day = 2, hour = 12, minute = 0, second = 0, microsecond = 0\<rparr>
      = Inr (Some 363)"
  by (simp add: Record_init_def Name_init_letters ascii_letter_def Birthday_2000_01_01
      days_to_birthday_def replace_year_def days_in_month_def datetime_gt_def sub_days_def
      toordinal_def ymd2ord_def days_before_year_def days_before_month_def is_leap_def
      seconds_of_day_def)

lemma other_day_fits:
  assumes "valid_datetime d" and "\<not> (month d = 2 \<and> day d = 29)"
  shows "day d \<le> days_in_month y (month d)"
proof -
  have m: "1 \<le> month d" "month d \<le> 12" and dd: "day d \<le> days_in_month (year d) (month d)"
    using assms(1) by (simp_all add: valid_datetime_def)
  show ?thesis
  proof (cases "month d = 2")
    case True
    with dd assms(2) have "day d \<le> 28"
      by (simp add: days_in_month_def split: if_splits)
    with True show ?thesis by (simp add: days_in_month_def)
  next
    case False
    with dd show ?thesis by (simp add: days_in_month_def)
  qed
qed

lemma days_to_birthday_returns:
  assumes t: "valid_datetime today" "year today < 9999"
    and b: "birthday r = Some b" "valid_datetime (date b)"
      "\<not> (month (date b) = 2 \<and> day (date b) = 29)"
  shows "\<exists>n. days_to_birthday r today = Inr (Some n)"
proof -
  have y: "1 \<le> year today" "year today \<le> 9999" "year today + 1 \<le> 9999"
    using t by (simp_all add: valid_datetime_def)
  have fits: "day (date b) \<le> days_in_month y (month (date b))" for y
    using b(2,3) by (rule other_day_fits)
  have r1: "replace_year (date b) (year today) = Inr ((date b)\<lparr>year := year today\<rparr>)"
    using y fits by (simp add: replace_year_def)
  have r2: "replace_year ((date b)\<lparr>year := year today\<rparr>) (year today + 1)
              = Inr ((date b)\<lparr>year := year today + 1\<rparr>)"
    using y fits by (simp add: replace_year_def)
  show ?thesis by (simp add: days_to_birthday_def b(1) r1 r2)
qed

text \<open>
  C3, as the code has it. \<open>days_to_birthday\<close> returns \<open>None\<close> exactly when the record
  has no birthday. Otherwise it applies the month and day of the birthday to the current
  year, applies them to the next year when midnight of that date is strictly before the
  current timestamp, and returns the whole days from now to that date. It does return a
  number for every birthday other than a 29th of February while the current year is
  before 9999. Whenever it returns a number, the number is not negative and is the
  number of calendar days from today to that date, less one day unless the current time
  is exactly midnight. For the birthday "2000-01-01": on 2023-01-01 the result is 0 at
  exactly midnight and 364 at any later time of the day; on 2023-01-02 it is 364 at
  exactly midnight and 363 at any later time.
\<close>

theorem days_to_birthday_timestamp_policy:
  assumes "reachable r" and "valid_datetime today"
    and "Record_init nm (Some ''2000-01-01'') = Inr r1"
    and "valid_datetime t1" "year t1 = 2023" "month t1 = 1" "day t1 = 1"
    and "valid_datetime t2" "year t2 = 2023" "month t2 = 1" "day t2 = 2"
  shows "(days_to_birthday r today = Inr None \<longleftrightarrow> birthday r = None)
    \<and> (\<forall>b. birthday r = Some b \<and> \<not> (month (date b) = 2 \<and> day (date b) = 29)
             \<and> year today < 9999 \<longrightarrow>
          (\<exists>n. days_to_birthday r today = Inr (Some n)))
    \<and> (\<forall>b n. birthday r = Some b \<and> days_to_birthday r today = Inr (Some n) \<longrightarrow>
          0 \<le> n \<and>
          n = toordinal ((date b)\<lparr>year :=
                  if datetime_gt today ((date b)\<lparr>year := year today\<rparr>)
                  then year today + 1 else year today\<rparr>)
              - toordinal today - (if midnight today then 0 else 1))
    \<and> days_to_birthday r1 t1 = Inr (Some (if midnight t1 then 0 else 364))
    \<and> days_to_birthday r1 t2 = Inr (Some (if midnight t2 then 364 else 363))"
proof -
  have none: "days_to_birthday r today = Inr None \<longleftrightarrow> birthday r = None"
    by (rule days_to_birthday_None)
  have some: "0 \<le> n \<and>
          n = toordinal ((date b)\<lparr>year :=
                  if datetime_gt today ((date b)\<lparr>year := year today\<rparr>)
                  then year today + 1 else year today\<rparr>)
              - toordinal today - (if midnight today then 0 else 1)"
    if b: "birthday r = Some b" and n: "days_to_birthday r today = Inr (Some n)" for b n
  proof -
    have wf: "valid_datetime (date b)" "midnight (date b)"
      using reachable_birthday [OF assms(1) b] by simp_all
    have nn: "0 \<le> n" using assms(2) b wf n by (rule days_to_birthday_nonneg)
    have mid: "midnight ((date b)\<lparr>year := y\<rparr>)" for y
      using wf(2) by (simp add: midnight_def)
    have "n = sub_days ((date b)\<lparr>year :=
                  if datetime_gt today ((date b)\<lparr>year := year today\<rparr>)
                  then year today + 1 else year today\<rparr>) today"
      using b n by (auto simp: days_to_birthday_def replace_year_def split: if_splits)
    then show ?thesis using nn sub_days_midnight [OF mid assms(2)] by simp
  qed
  from assms(3) obtain b1 where b1: "birthday r1 = Some b1"
      "date b1 = \<lparr>year = 2000, month = 1, day = 1, hour = 0, minute = 0, second = 0,
                  microsecond = 0\<rparr>"
    by (auto simp: Record_init_def Birthday_2000_01_01 split: sum.splits)
  have e1: "days_to_birthday r1 t1 = Inr (Some (if midnight t1 then 0 else 364))"
    using new_year_birthday(1) [OF b1 assms(4,5,6,7)] .
  have e2: "days_to_birthday r1 t2 = Inr (Some (if midnight t2 then 364 else 363))"
    using new_year_birthday(2) [OF b1 assms(8,9,10,11)] .
  have ret: "\<exists>n. days_to_birthday r today = Inr (Some n)"
    if b: "birthday r = Some b" and nl: "\<not> (month (date b) = 2 \<and> day (date b) = 29)"
      and y: "year today < 9999" for b
  proof -
    have "valid_datetime (date b)" using reachable_birthday [OF assms(1) b] by simp
    with assms(2) y b show ?thesis using nl by (rule days_to_birthday_returns)
  qed
  show ?thesis
  proof (intro conjI allI impI)
    show "days_to_birthday r today = Inr None \<longleftrightarrow> birthday r = None" by (fact none)
    show "\<exists>n. days_to_birthday r today = Inr (Some n)"
      if "birthday r = Some b \<and> \<not> (month (date b) = 2 \<and> day (date b) = 29)
            \<and> year today < 9999" for b
      using that ret by simp
    show "0 \<le> n"
      if "birthday r = Some b \<and> days_to_birthday r today = Inr (Some n)" for b n
      using that some by simp
    show "n = toordinal ((date b)\<lparr>year :=
                  if datetime_gt today ((date b)\<lparr>year := year today\<rparr>)
                  then year today + 1 else year today\<rparr>)
              - toordinal today - (if midnight today then 0 else 1)"
      if "birthday r = Some b \<and> days_to_birthday r today = Inr (Some n)" for b n
      using that some [of b n] by (elim conjE) (rule conjunct2)
    show "days_to_birthday r1 t1 = Inr (Some (if midnight t1 then 0 else 364))" by (fact e1)
    show "days_to_birthday r1 t2 = Inr (Some (if midnight t2 then 364 else 363))" by (fact e2)
  qed
qed

theorem days_to_birthday_timestamp_policy_witness:
  "reachable \<lparr>name = MkName ''Bob'', phones = [],
          birthday = Some \<lparr>date = \<lparr>year = 2000, month = 1, day = 1, hour = 0, minute = 0,
                                    second = 0, microsecond = 0\<rparr>,
                           birthday_value = ''2000-01-01''\<rparr>\<rparr>
   \<and> days_to_birthday
        \<lparr>name = MkName ''Bob'', phones = [],
           birthday = Some \<lparr>date = \<lparr>year = 2000, month = 1, day = 1, hour = 0, minute = 0,
                                     second = 0, microsecond = 0\<rparr>,
                            birthday_value = ''2000-01-01''\<rparr>\<rparr>
        \<lparr>year = 2023, month = 1, day = 1, hour = 0, minute = 0, second = 0, microsecond = 0\<rparr>
      = Inr (Some 0)
   \<and> days_to_birthday
        \<lparr>name = MkName ''Bob'', phones = [],
           birthday = Some \<lparr>date = \<lparr>year = 2000, month = 1, day = 1, hour = 0, minute = 0,
                                     second = 0, microsecond = 0\<rparr>,
                            birthday_value = ''2000-01-01''\<rparr>\<rparr>
        \<lparr>year = 2023, month = 1, day = 1, hour = 0, minute = 0, second = 0, microsecond = 1\<rparr>
      = Inr (Some 364)
   \<and> days_to_birthday
        \<lparr>name = MkName ''Bob'', phones = [],
           birthday = Some \<lparr>date = \<lparr>year = 2000, month = 1, day = 1, hour = 0, minute = 0,
                                     second = 0, microsecond = 0\<rparr>,
                            birthday_value = ''2000-01-01''\<rparr>\<rparr>
        \<lparr>year = 2023, month = 1, day = 2, hour = 23, minute = 59, second = 59,
           microsecond = 999999\<rparr>
      = Inr (Some 363)"
proof -
  let ?r = "\<lparr>name = MkName ''Bob'', phones = [],
          birthday = Some \<lparr>date = \<lparr>year = 2000, month = 1, day = 1, hour = 0, minute = 0,
                                    second = 0, microsecond = 0\<rparr>,
                           birthday_value = ''2000-01-01''\<rparr>\<rparr>"
  let ?t0 = "\<lparr>year = 2023, month = 1, day = 1, hour = 0, minute = 0, second = 0,
               microsecond = 0\<rparr>"
  let ?t1 = "\<lparr>year = 2023, month = 1, day = 1, hour = 0, minute = 0, second = 0,
               microsecond = 1\<rparr>"
  let ?t2 = "\<lparr>year = 2023, month = 1, day = 2, hour = 23, minute = 59, second = 59,
               microsecond = 999999\<rparr>"
  have init: "Record_init ''Bob'' (Some ''2000-01-01'') = Inr ?r"
    by (simp add: Record_init_def Name_init_letters ascii_letter_def Birthday_2000_01_01)
  then have reach: "reachable ?r" by (rule reach_init)
  have v: "valid_datetime ?t0" "valid_datetime ?t1" "valid_datetime ?t2"
    by (simp_all add: valid_datetime_def days_in_month_def)
  have a: "days_to_birthday ?r ?t0 = Inr (Some (if midnight ?t0 then 0 else 364))"
    using days_to_birthday_timestamp_policy [OF reach v(1) init v(1) _ _ _ v(3), THEN conjunct2,
        THEN conjunct2, THEN conjunct2, THEN conjunct1]
    by simp
  have b: "days_to_birthday ?r ?t1 = Inr (Some (if midnight ?t1 then 0 else 364))"
    using days_to_birthday_timestamp_policy [OF reach v(2) init v(2) _ _ _ v(3), THEN conjunct2,
        THEN conjunct2, THEN conjunct2, THEN conjunct1]
    by simp
  have c: "days_to_birthday ?r ?t2 = Inr (Some (if midnight ?t2 then 364 else 363))"
    using days_to_birthday_timestamp_policy [OF reach v(1) init v(1) _ _ _ v(3), THEN conjunct2,
        THEN conjunct2, THEN conjunct2, THEN conjunct2]
    by simp
  have m: "midnight ?t0" "\<not> midnight ?t1" "\<not> midnight ?t2"
    by (simp_all add: midnight_def)
  show ?thesis using reach a b c m by (simp only: if_True if_False simp_thms)
qed

section \<open>Adding a contact\<close>

lemma dict_contains_iff: "dict_contains d k \<longleftrightarrow> k \<in> fst ` set d"
  by (simp add: dict_contains_def map_of_eq_None_iff)

lemma dict_set_new: "k \<notin> fst ` set d \<Longrightarrow> dict_set d k v = d @ [(k, v)]"
  by (induction d) auto

lemma Name_init_Inr: "Name_init s = Inr n \<Longrightarrow> n = MkName s"
  by (auto simp: Name_init_def Name_set_value_def split: if_splits)

lemma Record_init_eq:
  "Record_init nm bd =
     (case Name_init nm of
        Inl e \<Rightarrow> Inl e
      | Inr n \<Rightarrow>
          (case if_truthy Birthday_init bd of
             Inl e \<Rightarrow> Inl e
           | Inr b \<Rightarrow> Inr \<lparr>name = n, phones = [], birthday = b\<rparr>))"
  by (auto simp: Record_init_def if_truthy_def split: sum.splits)

text \<open>
  C1. Not every \<open>phone2\<close> or birthday that is given is validated: the guards are
  \<open>if phone2:\<close> and \<open>if birthday:\<close>, which the empty string does not pass. The empty
  string is neither a valid phone nor a valid birthday, yet with an empty \<open>phone2\<close> and
  an empty birthday the contact is added, with one phone and no birthday.
\<close>

theorem add_contact_empty_optional_counterexample:
  "Phone_init [] = Inl (IncorrectPhoneFormat [])
   \<and> Birthday_init [] = Inl (IncorrectBirthdayFormat [])
   \<and> add_contact [] ''Al'' ''1111111111'' (Some []) (Some [])
       = (Inr (Added ''Al''),
          [(''Al'', \<lparr>name = MkName ''Al'', phones = [MkPhone ''1111111111''],
                     birthday = None\<rparr>)])"
  by (simp add: Phone_init_eq Birthday_init_def Birthday_set_value_def strptime_ymd_def
      matches_ymd_def add_contact_def dict_contains_def Name_init_letters ascii_letter_def
      digit_char_def ascii_digit_def Record_init_def add_phone_def add_record_def)

text \<open>
  C1, as the code has it. \<open>add_contact\<close> checks in this order: the name is not empty;
  the name is not in the book; the name is a valid \<open>Name\<close>; \<open>phone1\<close> is a valid
  \<open>Phone\<close>; \<open>phone2\<close>, if given and not empty, is a valid \<open>Phone\<close>; the birthday, if
  given and not empty, is a valid \<open>Birthday\<close>. An empty \<open>phone2\<close> or birthday counts as
  not given: it is not validated and nothing is stored for it. The first check that
  fails decides the report, and the book stays as it was. When all pass, the record
  with the name, the phones in their order and the birthday is put at the end of the
  book. No exception leaves \<open>add_contact\<close>. Whatever the other arguments, the book is
  unchanged when the name is already in it, and whenever the report is not "added".
\<close>

theorem add_contact_checks_in_order:
  "add_contact book nm phone1 phone2 bd =
     (if nm = [] then (Inr InvalidContactName, book)
      else if nm \<in> fst ` set book then (Inr (AlreadyExists nm), book)
      else case Name_init nm of
        Inl e \<Rightarrow> (Inr (Rejected e), book)
      | Inr n \<Rightarrow>
      case Phone_init phone1 of
        Inl e \<Rightarrow> (Inr (Rejected e), book)
      | Inr p1 \<Rightarrow>
      case if_truthy Phone_init phone2 of
        Inl e \<Rightarrow> (Inr (Rejected e), book)
      | Inr p2 \<Rightarrow>
      case if_truthy Birthday_init bd of
        Inl e \<Rightarrow> (Inr (Rejected e), book)
      | Inr b \<Rightarrow>
        (Inr (Added nm),
         book @ [(nm, \<lparr>name = n, phones = p1 # (case p2 of None \<Rightarrow> [] | Some p \<Rightarrow> [p]),
                       birthday = b\<rparr>)]))
   \<and> (fst (add_contact book nm phone1 phone2 bd) = Inr (Added nm)
        \<or> snd (add_contact book nm phone1 phone2 bd) = book)
   \<and> (nm \<in> fst ` set book \<longrightarrow> snd (add_contact book nm phone1 phone2 bd) = book)"
proof -
  let ?rhs = "(if nm = [] then (Inr InvalidContactName, book)
      else if nm \<in> fst ` set book then (Inr (AlreadyExists nm), book)
      else case Name_init nm of
        Inl e \<Rightarrow> (Inr (Rejected e), book)
      | Inr n \<Rightarrow>
      case Phone_init phone1 of
        Inl e \<Rightarrow> (Inr (Rejected e), book)
      | Inr p1 \<Rightarrow>
      case if_truthy Phone_init phone2 of
        Inl e \<Rightarrow> (Inr (Rejected e), book)
      | Inr p2 \<Rightarrow>
      case if_truthy Birthday_init bd of
        Inl e \<Rightarrow> (Inr (Rejected e), book)
      | Inr b \<Rightarrow>
        (Inr (Added nm),
         book @ [(nm, \<lparr>name = n, phones = p1 # (case p2 of None \<Rightarrow> [] | Some p \<Rightarrow> [p]),
                       birthday = b\<rparr>)]))"
  have eq: "add_contact book nm phone1 phone2 bd = ?rhs"
  proof (cases "nm = [] \<or> nm \<in> fst ` set book")
    case True
    then show ?thesis by (auto simp: add_contact_def dict_contains_iff)
  next
    case False
    then have fresh: "nm \<noteq> []" "nm \<notin> fst ` set book" by auto
    show ?thesis
    proof (cases "Name_init nm")
      case (Inl e)
      with fresh show ?thesis by (simp add: add_contact_def dict_contains_iff)
    next
      case n: (Inr n)
      then have nv: "name_value n = nm" using Name_init_Inr by fastforce
      show ?thesis
      proof (cases "Phone_init phone1")
        case (Inl e)
        with fresh n show ?thesis by (simp add: add_contact_def dict_contains_iff)
      next
        case p1: (Inr p1)
        then have p1v: "Phone_init (phone_value p1) = Inr p1"
          using Phone_init_Inr by fastforce
        show ?thesis
        proof (cases "if_truthy Phone_init phone2")
          case (Inl e)
          with fresh n p1 show ?thesis
            by (simp add: add_contact_def dict_contains_iff if_truthy_def)
        next
          case p2: (Inr p2)
          show ?thesis
          proof (cases "if_truthy Birthday_init bd")
            case (Inl e)
            with fresh n p1 p2 show ?thesis
              by (simp add: add_contact_def dict_contains_iff if_truthy_def Record_init_eq nv)
          next
            case b: (Inr b)
            show ?thesis
            proof (cases "truthy phone2")
              case True
              with p2 obtain q where q: "Phone_init (the phone2) = Inr q" "p2 = Some q"
                by (cases "Phone_init (the phone2)") (auto simp: if_truthy_def)
              then have qv: "Phone_init (phone_value q) = Inr q"
                using Phone_init_Inr by fastforce
              from fresh n p1 p2 b True q show ?thesis
                by (simp add: add_contact_def dict_contains_iff if_truthy_def Record_init_eq nv
                    add_phone_def p1v qv add_record_def dict_set_new)
            next
              case False
              with p2 have "p2 = None" by (simp add: if_truthy_def)
              with fresh n p1 p2 b False show ?thesis
                by (simp add: add_contact_def dict_contains_iff if_truthy_def Record_init_eq nv
                    add_phone_def p1v add_record_def dict_set_new)
            qed
          qed
        qed
      qed
    qed
  qed
  have un: "fst ?rhs = Inr (Added nm) \<or> snd ?rhs = book"
    by (simp split: sum.splits)
  have dup: "nm \<in> fst ` set book \<longrightarrow> snd ?rhs = book"
    by simp
  show ?thesis using un dup unfolding eq [symmetric] by (simp add: eq)
qed

theorem add_contact_checks_in_order_witness:
  "add_contact [] ''Bob'' ''1234567890'' None None
     = (Inr (Added ''Bob''),
        [(''Bob'', \<lparr>name = MkName ''Bob'', phones = [MkPhone ''1234567890''],
                    birthday = None\<rparr>)])
   \<and> add_contact [(''Bob'', \<lparr>name = MkName ''Bob'', phones = [MkPhone ''1234567890''],
                              birthday = None\<rparr>)]
        ''Bob'' ''12'' (Some ''34'') (Some ''yesterday'')
     = (Inr (AlreadyExists ''Bob''),
        [(''Bob'', \<lparr>name = MkName ''Bob'', phones = [MkPhone ''1234567890''],
                    birthday = None\<rparr>)])
   \<and> add_contact [(''Bob'', \<lparr>name = MkName ''Bob'', phones = [MkPhone ''1234567890''],
                              birthday = None\<rparr>)]
        ''Al1'' ''12'' (Some ''34'') (Some ''yesterday'')
     = (Inr (Rejected (NameOnlyLetters ''Al1'')),
        [(''Bob'', \<lparr>name = MkName ''Bob'', phones = [MkPhone ''1234567890''],
                    birthday = None\<rparr>)])
   \<and> add_contact [(''Bob'', \<lparr>name = MkName ''Bob'', phones = [MkPhone ''1234567890''],
                              birthday = None\<rparr>)]
        ''Al'' ''1111111111'' (Some ''34'') (Some ''yesterday'')
     = (Inr (Rejected (IncorrectPhoneFormat ''34'')),
        [(''Bob'', \<lparr>name = MkName ''Bob'', phones = [MkPhone ''1234567890''],
                    birthday = None\<rparr>)])
   \<and> add_contact [(''Bob'', \<lparr>name = MkName ''Bob'', phones = [MkPhone ''1234567890''],
                              birthday = None\<rparr>)]
        ''Al'' ''1111111111'' (Some ''2222222222'') (Some ''yesterday'')
     = (Inr (Rejected (IncorrectBirthdayFormat ''yesterday'')),
        [(''Bob'', \<lparr>name = MkName ''Bob'', phones = [MkPhone ''1234567890''],
                    birthday = None\<rparr>)])
   \<and> add_contact [(''Bob'', \<lparr>name = MkName ''Bob'', phones = [MkPhone ''1234567890''],
                              birthday = None\<rparr>)]
        ''Al'' ''1111111111'' (Some ''2222222222'') (Some ''2000-01-01'')
     = (Inr (Added ''Al''),
        [(''Bob'', \<lparr>name = MkName ''Bob'', phones = [MkPhone ''1234567890''],
                    birthday = None\<rparr>),
         (''Al'', \<lparr>name = MkName ''Al'',
                   phones = [MkPhone ''1111111111'', MkPhone ''2222222222''],
                   birthday = Some \<lparr>date = \<lparr>year = 2000, month = 1, day = 1, hour = 0,
                                             minute = 0, second = 0, microsecond = 0\<rparr>,
                                    birthday_value = ''2000-01-01''\<rparr>\<rparr>)])"
proof -
  let ?bob = "\<lparr>name = MkName ''Bob'', phones = [MkPhone ''1234567890''], birthday = None\<rparr>"
  have names: "Name_init ''Bob'' = Inr (MkName ''Bob'')" "Name_init ''Al'' = Inr (MkName ''Al'')"
    "Name_init ''Al1'' = Inl (NameOnlyLetters ''Al1'')"
    by (simp_all add: Name_init_def Name_set_value_def re_match_letters_def ascii_letter_def)
  have phones: "Phone_init ''1234567890'' = Inr (MkPhone ''1234567890'')"
    "Phone_init ''1111111111'' = Inr (MkPhone ''1111111111'')"
    "Phone_init ''2222222222'' = Inr (MkPhone ''2222222222'')"
    "Phone_init ''34'' = Inl (IncorrectPhoneFormat ''34'')"
    by (simp_all add: Phone_init_eq digit_char_def ascii_digit_def)
  have bad: "Birthday_init ''yesterday'' = Inl (IncorrectBirthdayFormat ''yesterday'')"
    by (simp add: Birthday_init_def Birthday_set_value_def strptime_ymd_def matches_ymd_def
        ascii_digit_def)
  show ?thesis
    using
      add_contact_checks_in_order [of "[]" "''Bob''" "''1234567890''" None None]
      add_contact_checks_in_order
        [of "[(''Bob'', ?bob)]" "''Bob''" "''12''" "Some ''34''" "Some ''yesterday''"]
      add_contact_checks_in_order
        [of "[(''Bob'', ?bob)]" "''Al1''" "''12''" "Some ''34''" "Some ''yesterday''"]
      add_contact_checks_in_order
        [of "[(''Bob'', ?bob)]" "''Al''" "''1111111111''" "Some ''34''" "Some ''yesterday''"]
      add_contact_checks_in_order
        [of "[(''Bob'', ?bob)]" "''Al''" "''1111111111''" "Some ''2222222222''"
            "Some ''yesterday''"]
      add_contact_checks_in_order
        [of "[(''Bob'', ?bob)]" "''Al''" "''1111111111''" "Some ''2222222222''"
            "Some ''2000-01-01''"]
    by (simp add: names phones bad Birthday_2000_01_01 if_truthy_def)
qed

section \<open>Paging\<close>

lemma spec_pages_step:
  "xs \<noteq> [] \<Longrightarrow> 0 < n \<Longrightarrow> spec_pages n xs = take n xs # spec_pages n (drop n xs)"
  by (cases xs) simp_all

lemma take_min_length: "take (min n (length ys)) ys = take n ys"
  by (simp add: min_def)

lemma py_slice_page:
  assumes "0 \<le> c" "1 \<le> ps"
  shows "py_slice xs c (c + ps) = take (nat ps) (drop (nat c) xs)"
proof -
  have "take (nat (min (c + ps) (int (length xs))) - nat (min c (int (length xs))))
          (drop (nat (min c (int (length xs)))) xs) = take (nat ps) (drop (nat c) xs)"
  proof (cases "c \<le> int (length xs)")
    case True
    then have lo: "nat (min c (int (length xs))) = nat c" by simp
    have "nat (min (c + ps) (int (length xs))) - nat c = min (nat ps) (length xs - nat c)"
      using assms True by (auto simp: min_def nat_diff_distrib nat_add_distrib)
    then show ?thesis
      unfolding lo using take_min_length [of "nat ps" "drop (nat c) xs"] by simp
  next
    case False
    then show ?thesis using assms by (simp add: min_def)
  qed
  then show ?thesis using assms by (simp add: py_slice_def slice_index_def Let_def)
qed

lemma consume_suspended:
  assumes "1 \<le> ps" "0 \<le> c"
  shows "consume books (Suspended xs (int (length xs)) c ps) =
           (take (length books) (spec_pages (nat ps) (drop (nat (c + ps)) xs)),
            if length (spec_pages (nat ps) (drop (nat (c + ps)) xs)) < length books
            then Finished
            else Suspended xs (int (length xs)) (c + int (length books) * ps) ps)"
  using assms(2)
proof (induction books arbitrary: c)
  case Nil
  then show ?case by simp
next
  case (Cons b books)
  define c1 where "c1 = c + ps"
  have c1: "0 \<le> c1" using Cons.prems assms(1) by (simp add: c1_def)
  have cc: "c + int (length (b # books)) * ps = c1 + int (length books) * ps"
    by (simp add: c1_def algebra_simps)
  have np: "next_page b (Suspended xs (int (length xs)) c ps) =
              loop_test xs (int (length xs)) c1 ps"
    by (simp add: c1_def)
  show ?case
    unfolding c1_def [symmetric] cc
  proof (cases "c1 < int (length xs)")
    case False
    then have "drop (nat c1) xs = []" by simp
    with False show "consume (b # books) (Suspended xs (int (length xs)) c ps) =
      (take (length (b # books)) (spec_pages (nat ps) (drop (nat c1) xs)),
       if length (spec_pages (nat ps) (drop (nat c1) xs)) < length (b # books)
       then Finished
       else Suspended xs (int (length xs)) (c1 + int (length books) * ps) ps)"
      by (simp add: np loop_test_def del: next_page.simps)
  next
    case True
    have ne: "drop (nat c1) xs \<noteq> []" using True c1 by simp
    have n0: "0 < nat ps" using assms(1) by simp
    have "nat ps + nat c1 = nat (c1 + ps)" using c1 assms(1) by linarith
    then have dd: "drop (nat ps) (drop (nat c1) xs) = drop (nat (c1 + ps)) xs" by simp
    have sp: "spec_pages (nat ps) (drop (nat c1) xs) =
                take (nat ps) (drop (nat c1) xs) # spec_pages (nat ps) (drop (nat (c1 + ps)) xs)"
      by (simp only: spec_pages_step [OF ne n0] dd)
    have lt: "loop_test xs (int (length xs)) c1 ps =
                (Some (take (nat ps) (drop (nat c1) xs)), Suspended xs (int (length xs)) c1 ps)"
      using True by (simp add: loop_test_def py_slice_page [OF c1 assms(1)])
    show "consume (b # books) (Suspended xs (int (length xs)) c ps) =
      (take (length (b # books)) (spec_pages (nat ps) (drop (nat c1) xs)),
       if length (spec_pages (nat ps) (drop (nat c1) xs)) < length (b # books)
       then Finished
       else Suspended xs (int (length xs)) (c1 + int (length books) * ps) ps)"
      by (simp add: np lt Cons.IH [OF c1] sp del: next_page.simps)
  qed
qed

lemma consume_created:
  assumes "1 \<le> ps"
  shows "consume (b0 # later) (Created ps) =
           (take (Suc (length later)) (spec_pages (nat ps) (dict_values b0)),
            if length (spec_pages (nat ps) (dict_values b0)) < Suc (length later)
            then Finished
            else Suspended (dict_values b0) (int (length b0)) (int (length later) * ps) ps)"
proof (cases "b0 = []")
  case True
  then show ?thesis by (simp add: loop_test_def dict_values_def)
next
  case False
  then have ne: "dict_values b0 \<noteq> []" by (simp add: dict_values_def)
  have len: "int (length b0) = int (length (dict_values b0))" by (simp add: dict_values_def)
  have sp: "spec_pages (nat ps) (dict_values b0) =
              take (nat ps) (dict_values b0) # spec_pages (nat ps) (drop (nat ps) (dict_values b0))"
    using spec_pages_step [OF ne, of "nat ps"] assms by simp
  have sl: "py_slice (dict_values b0) 0 ps = take (nat ps) (dict_values b0)"
    using py_slice_page [of 0 ps "dict_values b0"] assms by simp
  show ?thesis
    using False ne consume_suspended [OF assms, of 0 later "dict_values b0"]
    by (simp add: loop_test_def sl sp len del: of_nat_eq_iff)
qed

lemma concat_spec_pages: "0 < n \<Longrightarrow> concat (spec_pages n xs) = xs"
  by (induction n xs rule: spec_pages.induct) simp_all

lemma spec_pages_nonempty: "p \<in> set (spec_pages n xs) \<Longrightarrow> p \<noteq> [] \<and> length p \<le> n"
  by (induction n xs rule: spec_pages.induct) (auto split: if_splits)

lemma spec_pages_full:
  "p \<in> set (butlast (spec_pages n xs)) \<Longrightarrow> length p = n"
proof (induction n xs rule: spec_pages.induct)
  case (1 n)
  then show ?case by simp
next
  case (2 n x xs)
  show ?case
  proof (cases "n = 0")
    case True
    with 2 show ?thesis by simp
  next
    case False
    show ?thesis
    proof (cases "spec_pages n (drop n (x # xs)) = []")
      case True
      with 2 False show ?thesis by simp
    next
      case ne: False
      then have "drop n (x # xs) \<noteq> []" by auto
      then have "n \<le> length (x # xs)" by simp
      with 2 False ne show ?thesis by (auto simp: min_def)
    qed
  qed
qed

lemma length_spec_pages: "length (spec_pages n xs) \<le> length xs"
proof (induction n xs rule: spec_pages.induct)
  case (2 n x xs)
  then show ?case by (cases n) auto
qed simp

lemma consume_started:
  "length books = length books' \<Longrightarrow> (\<forall>ps. g \<noteq> Created ps) \<Longrightarrow>
   consume books g = consume books' g"
proof (induction books books' arbitrary: g rule: list_induct2)
  case Nil
  then show ?case by simp
next
  case (Cons b books b' books')
  show ?case
  proof (cases g)
    case (Created ps)
    with Cons.prems show ?thesis by simp
  next
    case (Suspended xs n c ps)
    then show ?thesis
      using Cons.IH [of "Suspended xs n (c + ps) ps"] by (simp add: loop_test_def)
  next
    case Finished
    then show ?thesis by simp
  qed
qed

lemma consume_first_request:
  "consume (b0 # later) (Created ps) = consume (b0 # later') (Created ps)"
  if "length later = length later'"
proof (cases "0 < int (length b0)")
  case True
  then show ?thesis
    using consume_started [OF that, of "Suspended (dict_values b0) (int (length b0)) 0 ps"]
    by (simp add: loop_test_def)
next
  case False
  then show ?thesis by (simp add: loop_test_def)
qed

lemma set_py_slice: "set (py_slice xs a b) \<subseteq> set xs"
proof -
  have "set (take k (drop j xs)) \<subseteq> set xs" for k j
    using set_take_subset [of k "drop j xs"] set_drop_subset [of j xs] by blast
  then show ?thesis by (simp add: py_slice_def Let_def)
qed

lemma loop_test_cases:
  "loop_test xs n c ps = (None, Finished) \<or>
   loop_test xs n c ps = (Some (py_slice xs c (c + ps)), Suspended xs n c ps)"
  by (simp add: loop_test_def)

lemma consume_pages_subset:
  "page \<in> set (fst (consume books (Suspended xs n c ps))) \<Longrightarrow> set page \<subseteq> set xs"
proof (induction books arbitrary: c)
  case Nil
  then show ?case by simp
next
  case (Cons b books)
  from loop_test_cases [of xs n "c + ps" ps] show ?case
  proof
    assume "loop_test xs n (c + ps) ps = (None, Finished)"
    with Cons.prems show ?thesis by simp
  next
    assume lt: "loop_test xs n (c + ps) ps =
      (Some (py_slice xs (c + ps) (c + ps + ps)), Suspended xs n (c + ps) ps)"
    from Cons.prems have "page = py_slice xs (c + ps) (c + ps + ps) \<or>
        page \<in> set (fst (consume books (Suspended xs n (c + ps) ps)))"
      by (simp add: lt split: prod.splits)
    then show ?thesis
    proof
      assume "page = py_slice xs (c + ps) (c + ps + ps)"
      then show ?thesis by (simp add: set_py_slice)
    next
      assume "page \<in> set (fst (consume books (Suspended xs n (c + ps) ps)))"
      then show ?thesis by (rule Cons.IH)
    qed
  qed
qed

lemma consume_created_subset:
  "page \<in> set (fst (consume (b0 # later) (Created ps))) \<Longrightarrow> set page \<subseteq> set (dict_values b0)"
proof -
  assume p: "page \<in> set (fst (consume (b0 # later) (Created ps)))"
  from loop_test_cases [of "dict_values b0" "int (length b0)" 0 ps] show ?thesis
  proof
    assume "loop_test (dict_values b0) (int (length b0)) 0 ps = (None, Finished)"
    with p show ?thesis by simp
  next
    assume lt: "loop_test (dict_values b0) (int (length b0)) 0 ps =
      (Some (py_slice (dict_values b0) 0 (0 + ps)),
       Suspended (dict_values b0) (int (length b0)) 0 ps)"
    from p have "page = py_slice (dict_values b0) 0 (0 + ps) \<or>
        page \<in> set (fst (consume later (Suspended (dict_values b0) (int (length b0)) 0 ps)))"
      by (simp add: lt split: prod.splits)
    then show ?thesis
    proof
      assume "page = py_slice (dict_values b0) 0 (0 + ps)"
      then show ?thesis by (simp add: set_py_slice)
    next
      assume "page \<in> set (fst (consume later
                (Suspended (dict_values b0) (int (length b0)) 0 ps)))"
      then show ?thesis by (rule consume_pages_subset)
    qed
  qed
qed

text \<open>
  C8. For a page size of at least 1, a consumer that makes one request more than the
  book has records, the book staying as it is, reaches the end of the generator: the
  sequence of pages is finite, with at most as many pages as records. The pages are the
  consecutive slices of the records in the order of the book, joined together they are
  exactly the records, every page but the last has \<open>page_size\<close> records, and no page is
  empty or longer than \<open>page_size\<close>. A book of 5 records and a page size of 2 give
  pages of 2, 2 and 1 records.
\<close>

theorem iterator_pages_cover_in_order:
  assumes "1 \<le> page_size"
  shows "\<exists>pages.
      consume (replicate (Suc (length book)) book) (iterator book page_size) = (pages, Finished)
    \<and> pages = spec_pages (nat page_size) (dict_values book)
    \<and> concat pages = dict_values book
    \<and> (\<forall>p \<in> set (butlast pages). length p = nat page_size)
    \<and> (\<forall>p \<in> set pages. p \<noteq> [] \<and> length p \<le> nat page_size)
    \<and> length pages \<le> length book
    \<and> (length book = 5 \<and> page_size = 2 \<longrightarrow> map length pages = [2, 2, 1])"
proof -
  let ?pages = "spec_pages (nat page_size) (dict_values book)"
  have len: "length ?pages \<le> length book"
    using length_spec_pages [of "nat page_size" "dict_values book"]
    by (simp add: dict_values_def)
  have "consume (book # replicate (length book) book) (Created page_size) = (?pages, Finished)"
    using len by (simp add: consume_created [OF assms] del: consume.simps)
  then have run: "consume (replicate (Suc (length book)) book) (iterator book page_size)
      = (?pages, Finished)"
    by (simp add: iterator_def)
  have cat: "concat ?pages = dict_values book"
    using assms by (intro concat_spec_pages) simp
  have full: "\<forall>p \<in> set (butlast ?pages). length p = nat page_size"
    by (intro ballI) (rule spec_pages_full)
  have part: "\<forall>p \<in> set ?pages. p \<noteq> [] \<and> length p \<le> nat page_size"
    by (intro ballI) (rule spec_pages_nonempty)
  have five: "map length ?pages = [2, 2, 1]" if "length book = 5" "page_size = 2"
  proof -
    from that(1) obtain a b c d e where "dict_values book = [a, b, c, d, e]"
      by (auto simp: dict_values_def numeral_eq_Suc length_Suc_conv)
    with that(2) show ?thesis by (simp add: numeral_eq_Suc)
  qed
  have "consume (replicate (Suc (length book)) book) (iterator book page_size)
        = (?pages, Finished)
    \<and> ?pages = spec_pages (nat page_size) (dict_values book)
    \<and> concat ?pages = dict_values book
    \<and> (\<forall>p \<in> set (butlast ?pages). length p = nat page_size)
    \<and> (\<forall>p \<in> set ?pages. p \<noteq> [] \<and> length p \<le> nat page_size)
    \<and> length ?pages \<le> length book
    \<and> (length book = 5 \<and> page_size = 2 \<longrightarrow> map length ?pages = [2, 2, 1])"
  proof (intro conjI impI)
    show "consume (replicate (Suc (length book)) book) (iterator book page_size)
        = (?pages, Finished)" by (fact run)
    show "?pages = spec_pages (nat page_size) (dict_values book)" by (rule refl)
    show "concat ?pages = dict_values book" by (fact cat)
    show "\<forall>p \<in> set (butlast ?pages). length p = nat page_size" by (fact full)
    show "\<forall>p \<in> set ?pages. p \<noteq> [] \<and> length p \<le> nat page_size" by (fact part)
    show "length ?pages \<le> length book" by (fact len)
    assume h: "length book = 5 \<and> page_size = 2"
    show "map length ?pages = [2, 2, 1]"
      by (rule five) (simp_all only: h)
  qed
  then show ?thesis by (rule exI [where x = ?pages])
qed

theorem iterator_pages_cover_in_order_witness:
  "\<exists>pages.
      consume (replicate 6 [(''a'', 1::nat), (''b'', 2), (''c'', 3), (''d'', 4), (''e'', 5)])
        (iterator [(''a'', 1), (''b'', 2), (''c'', 3), (''d'', 4), (''e'', 5)] 2)
        = (pages, Finished)
    \<and> concat pages = [1, 2, 3, 4, 5]
    \<and> map length pages = [2, 2, 1]"
proof -
  let ?book = "[(''a'', 1::nat), (''b'', 2), (''c'', 3), (''d'', 4), (''e'', 5)]"
  have six: "replicate (Suc (length ?book)) ?book = replicate 6 ?book"
    by (simp add: numeral_eq_Suc)
  have five: "length ?book = 5 \<and> (2::int) = 2" by simp
  have vals: "dict_values ?book = [1, 2, 3, 4, 5]" by (simp add: dict_values_def)
  have two: "(1::int) \<le> 2" by simp
  from iterator_pages_cover_in_order [OF two, of ?book]
  obtain pages where p:
    "consume (replicate (Suc (length ?book)) ?book) (iterator ?book 2) = (pages, Finished)
    \<and> pages = spec_pages (nat 2) (dict_values ?book)
    \<and> concat pages = dict_values ?book
    \<and> (\<forall>p \<in> set (butlast pages). length p = nat 2)
    \<and> (\<forall>p \<in> set pages. p \<noteq> [] \<and> length p \<le> nat 2)
    \<and> length pages \<le> length ?book
    \<and> (length ?book = 5 \<and> (2::int) = 2 \<longrightarrow> map length pages = [2, 2, 1])"
    by (rule exE)
  note r = p [THEN conjunct1]
  note c = p [THEN conjunct2, THEN conjunct2, THEN conjunct1]
  note f = p [THEN conjunct2, THEN conjunct2, THEN conjunct2, THEN conjunct2, THEN conjunct2,
      THEN conjunct2]
  from f five have l: "map length pages = [2, 2, 1]" by (rule mp)
  from r have r': "consume (replicate 6 ?book) (iterator ?book 2) = (pages, Finished)"
    by (simp only: six)
  from c have c': "concat pages = [1, 2, 3, 4, 5]" by (simp only: vals)
  from r' c' l have
    "consume (replicate 6 ?book) (iterator ?book 2) = (pages, Finished)
      \<and> concat pages = [1, 2, 3, 4, 5] \<and> map length pages = [2, 2, 1]"
    by (intro conjI)
  then show ?thesis by (rule exI)
qed

text \<open>
  C2. The snapshot is not taken when \<open>iterator\<close> is called: the call runs none of the
  body. Here \<open>iterator\<close> is called on the empty book, Bob is added afterwards, and the
  first page requested holds Bob.
\<close>

theorem iterator_snapshot_at_call_counterexample:
  "add_contact [] ''Bob'' ''1234567890'' None None
     = (Inr (Added ''Bob''),
        [(''Bob'', \<lparr>name = MkName ''Bob'', phones = [MkPhone ''1234567890''],
                    birthday = None\<rparr>)])
   \<and> consume [[(''Bob'', \<lparr>name = MkName ''Bob'', phones = [MkPhone ''1234567890''],
                          birthday = None\<rparr>)],
              [(''Bob'', \<lparr>name = MkName ''Bob'', phones = [MkPhone ''1234567890''],
                          birthday = None\<rparr>)]]
        (iterator [] 1)
     = ([[\<lparr>name = MkName ''Bob'', phones = [MkPhone ''1234567890''], birthday = None\<rparr>]],
        Finished)"
  by (simp add: add_contact_def dict_contains_def Name_init_letters ascii_letter_def
      Phone_init_eq digit_char_def ascii_digit_def Record_init_def add_phone_def
      add_record_def iterator_def loop_test_def dict_values_def py_slice_def slice_index_def)

lemma show_pages_consume:
  "show_pages worlds g =
     (map2 (\<lambda>(book, st) page. map st page) worlds (fst (consume (map fst worlds) g)),
      snd (consume (map fst worlds) g))"
proof (induction worlds arbitrary: g)
  case Nil
  then show ?case by simp
next
  case (Cons w worlds)
  obtain book st where w: "w = (book, st)" by (cases w)
  show ?case
  proof (cases "next_page book g")
    case (Pair page g')
    show ?thesis
    proof (cases page)
      case None
      with Pair w show ?thesis by (simp del: next_page.simps)
    next
      case (Some p)
      with Pair w Cons.IH [of g'] show ?thesis
        by (simp del: next_page.simps split: prod.splits)
    qed
  qed
qed

lemma zip_take_length: "zip xs (take (length xs) ys) = zip xs ys"
proof (induction xs arbitrary: ys)
  case Nil
  then show ?case by simp
next
  case (Cons x xs)
  then show ?case by (cases ys) simp_all
qed

lemma show_pages_created:
  assumes "1 \<le> ps"
  shows "fst (show_pages ((d0, s0) # worlds) (Created ps)) =
           map2 (\<lambda>(book, st) page. map st page) ((d0, s0) # worlds)
             (spec_pages (nat ps) (dict_values d0))"
proof -
  have "fst (consume (map fst ((d0, s0) # worlds)) (Created ps)) =
          take (length ((d0, s0) # worlds)) (spec_pages (nat ps) (dict_values d0))"
    using consume_created [OF assms, of d0 "map fst worlds"] by (simp del: consume.simps)
  then show ?thesis
    by (simp only: show_pages_consume fst_conv zip_take_length)
qed

text \<open>
  C2, as the code has it. The snapshot is taken at the first request for a page, not at
  the call of \<open>iterator\<close>, and it is a list of the book's own \<open>Record\<close> objects, not of
  copies. From the first request on the book is not read again: whatever entries the
  book has at the later requests (\<open>later\<close>), the pages and the final state of the
  generator are those of an iteration over the unchanged book \<open>b0\<close>, and everything on
  a page is a value of \<open>b0\<close>; for a page size of at least 1 the pages are the first
  slices of the values of \<open>b0\<close>, one for each request. Which objects are on which page
  is thereby fixed at the first request. What a page shows is not: the records of a
  page are read when the page is yielded, so each page shows the objects of its slice
  in the state they have at that request, with every change made in place until then.
\<close>

theorem iterator_snapshot_at_first_request:
  "consume (b0 # later) (iterator bcall page_size)
     = consume (replicate (Suc (length later)) b0) (iterator b0 page_size)
   \<and> (\<forall>page \<in> set (fst (consume (b0 # later) (iterator bcall page_size))).
         set page \<subseteq> set (dict_values b0))
   \<and> (1 \<le> page_size \<longrightarrow>
         fst (consume (b0 # later) (iterator bcall page_size))
           = take (Suc (length later)) (spec_pages (nat page_size) (dict_values b0)))
   \<and> (1 \<le> page_size \<longrightarrow>
         fst (show_pages ((d0, s0) # worlds) (iterator dcall page_size))
           = map2 (\<lambda>(book, st) page. map st page) ((d0, s0) # worlds)
               (spec_pages (nat page_size) (dict_values d0)))"
proof (intro conjI impI)
  show "consume (b0 # later) (iterator bcall page_size)
     = consume (replicate (Suc (length later)) b0) (iterator b0 page_size)"
    unfolding iterator_def replicate_Suc by (rule consume_first_request) simp
  show "\<forall>page \<in> set (fst (consume (b0 # later) (iterator bcall page_size))).
         set page \<subseteq> set (dict_values b0)"
    unfolding iterator_def by (intro ballI) (rule consume_created_subset)
  show "fst (consume (b0 # later) (iterator bcall page_size))
           = take (Suc (length later)) (spec_pages (nat page_size) (dict_values b0))"
    if "1 \<le> page_size"
    using that unfolding iterator_def by (simp only: consume_created fst_conv)
  show "fst (show_pages ((d0, s0) # worlds) (iterator dcall page_size))
           = map2 (\<lambda>(book, st) page. map st page) ((d0, s0) # worlds)
               (spec_pages (nat page_size) (dict_values d0))"
    if "1 \<le> page_size"
    using that unfolding iterator_def by (rule show_pages_created)
qed

theorem iterator_snapshot_at_first_request_witness:
  "fst (consume [[(''a'', 0::nat), (''b'', 1)], [(''a'', 0), (''b'', 1), (''c'', 2)], []]
          (iterator [] 1))
     = [[0], [1]]
   \<and> fst (show_pages
          [([(''a'', 0), (''b'', 1)],
            (\<lambda>a. if a = 0 then \<lparr>name = MkName ''a'', phones = [], birthday = None\<rparr>
              else if a = 1 then \<lparr>name = MkName ''b'', phones = [MkPhone ''1111111111''],
                                     birthday = None\<rparr>
              else \<lparr>name = MkName ''c'', phones = [], birthday = None\<rparr>)),
           ([(''a'', 0), (''b'', 1), (''c'', 2)],
            edit_phone_at
              (\<lambda>a. if a = 0 then \<lparr>name = MkName ''a'', phones = [], birthday = None\<rparr>
              else if a = 1 then \<lparr>name = MkName ''b'', phones = [MkPhone ''1111111111''],
                                     birthday = None\<rparr>
              else \<lparr>name = MkName ''c'', phones = [], birthday = None\<rparr>)
              1 ''1111111111'' ''2222222222''),
           ([],
            edit_phone_at
              (\<lambda>a. if a = 0 then \<lparr>name = MkName ''a'', phones = [], birthday = None\<rparr>
              else if a = 1 then \<lparr>name = MkName ''b'', phones = [MkPhone ''1111111111''],
                                     birthday = None\<rparr>
              else \<lparr>name = MkName ''c'', phones = [], birthday = None\<rparr>)
              1 ''1111111111'' ''2222222222'')]
          (iterator [] 1))
     = [[\<lparr>name = MkName ''a'', phones = [], birthday = None\<rparr>],
        [\<lparr>name = MkName ''b'', phones = [MkPhone ''2222222222''], birthday = None\<rparr>]]"
proof -
  let ?s0 = "(\<lambda>a. if a = 0 then \<lparr>name = MkName ''a'', phones = [], birthday = None\<rparr>
              else if a = 1 then \<lparr>name = MkName ''b'', phones = [MkPhone ''1111111111''],
                                     birthday = None\<rparr>
              else \<lparr>name = MkName ''c'', phones = [], birthday = None\<rparr>)"
  let ?s1 = "edit_phone_at ?s0 1 ''1111111111'' ''2222222222''"
  let ?d0 = "[(''a'', 0::nat), (''b'', 1)]"
  let ?d1 = "[(''a'', 0::nat), (''b'', 1), (''c'', 2)]"
  have one: "(1::int) \<le> 1" by simp
  note i = iterator_snapshot_at_first_request
    [of ?d0 "[?d1, []]" "[]" 1 ?d0 ?s0 "[(?d1, ?s1), ([], ?s1)]" "[]"]
  have pages: "spec_pages (nat 1) (dict_values ?d0) = [[0], [1]]"
    by (simp add: dict_values_def)
  have edited: "?s1 1 = \<lparr>name = MkName ''b'', phones = [MkPhone ''2222222222''],
                            birthday = None\<rparr>"
    by (simp add: edit_phone_at_def edit_phone_def Phone_set_value_def isdigit_def
        digit_char_def ascii_digit_def)
  from i [THEN conjunct2, THEN conjunct2, THEN conjunct1, THEN mp, OF one]
  have a: "fst (consume [?d0, ?d1, []] (iterator [] 1)) = [[0], [1]]"
    by (simp only: pages) simp
  from i [THEN conjunct2, THEN conjunct2, THEN conjunct2, THEN mp, OF one]
  have b: "fst (show_pages [(?d0, ?s0), (?d1, ?s1), ([], ?s1)] (iterator [] 1))
      = [[?s0 0], [?s1 1]]"
    by (simp only: pages) simp
  have "[[?s0 0], [?s1 1]]
      = [[\<lparr>name = MkName ''a'', phones = [], birthday = None\<rparr>],
         [\<lparr>name = MkName ''b'', phones = [MkPhone ''2222222222''], birthday = None\<rparr>]]"
    by (simp only: edited simp_thms if_True)
  with b have c: "fst (show_pages [(?d0, ?s0), (?d1, ?s1), ([], ?s1)] (iterator [] 1))
      = [[\<lparr>name = MkName ''a'', phones = [], birthday = None\<rparr>],
         [\<lparr>name = MkName ''b'', phones = [MkPhone ''2222222222''], birthday = None\<rparr>]]"
    by (rule trans)
  from a c show ?thesis by (rule conjI)
qed

end
